theory Spec2Isabelle
  imports Complex_Main
begin

section \<open>Scrollytelling engine (src/js/scrollytelling-engine.js)\<close>

subsection \<open>Data\<close>

text \<open>
  DOM nodes are referred to by a number. JavaScript numbers are modelled as reals here
  (visibility ratios, delays and durations are only compared, added and scaled).
\<close>

type_synonym node = nat

text \<open>An Animation Entry, as \<open>discoverSectionAnimations\<close> builds it.\<close>

record animation =
  element :: node
  atype :: string
  delay :: real
  duration :: real
  triggered :: bool

text \<open>A section record, as \<open>discoverSections\<close> builds it (media and bounds are left out:
  none of the functions below reads them).\<close>

record story_section =
  sid :: string
  stype :: string
  sindex :: nat
  isVisible :: bool
  visibilityRatio :: real
  animations :: "animation list"

text \<open>
  What the engine does to the outside: events handed to \<open>emit\<close>, timers handed to
  \<open>setTimeout\<close> and the type-specific DOM choreography. They are recorded in order.
\<close>

datatype effect =
    SectionChange string "string option"
  | SectionEnter string
  | SectionLeave string
  | AnimationTimeout real string nat
  | HeroVideoPlay string
  | CounterAnimations string
  | ComparisonAnimation string
  | TimelineAnimations string
  | TierAnimations string

text \<open>
  The engine: \<open>sections\<close> is the JavaScript \<open>Map\<close> in insertion order (keys are the
  \<open>sid\<close> fields), \<open>currentSection\<close> is the reference to one of its values (a key, or
  \<open>None\<close> for \<open>null\<close>).
\<close>

record engine =
  sections :: "story_section list"
  currentSection :: "string option"
  trace :: "effect list"

text \<open>An \<open>IntersectionObserverEntry\<close>: the target's \<open>id\<close>, its \<open>data-section-id\<close>,
  \<open>isIntersecting\<close> and \<open>intersectionRatio\<close>.\<close>

record entry =
  target_id :: string
  target_sectionId :: "string option"
  isIntersecting :: bool
  intersectionRatio :: real

subsection \<open>The section map\<close>

fun map_get :: "story_section list \<Rightarrow> string \<Rightarrow> story_section option" where
  "map_get [] k = None"
| "map_get (s # ss) k = (if sid s = k then Some s else map_get ss k)"

fun map_modify :: "string \<Rightarrow> (story_section \<Rightarrow> story_section) \<Rightarrow> story_section list \<Rightarrow> story_section list" where
  "map_modify k f [] = []"
| "map_modify k f (s # ss) = (if sid s = k then f s # ss else s # map_modify k f ss)"

fun map_set :: "story_section \<Rightarrow> story_section list \<Rightarrow> story_section list" where
  "map_set v [] = [v]"
| "map_set v (s # ss) = (if sid s = sid v then v # ss else s # map_set v ss)"

text \<open>\<open>entry.target.id || entry.target.dataset.sectionId\<close>: an empty id is falsy.\<close>

definition entry_sectionId :: "entry \<Rightarrow> string option" where
  "entry_sectionId en = (if target_id en \<noteq> [] then Some (target_id en) else target_sectionId en)"

definition entry_section :: "engine \<Rightarrow> entry \<Rightarrow> story_section option" where
  "entry_section e en =
     (case entry_sectionId en of None \<Rightarrow> None | Some k \<Rightarrow> map_get (sections e) k)"

subsection \<open>updateCurrentSection\<close>

text \<open>The \<open>forEach\<close> loop with its two locals \<open>maxVisibility\<close> and \<open>newCurrentSection\<close>.\<close>

fun scan_sections :: "story_section list \<Rightarrow> real \<times> story_section option \<Rightarrow> real \<times> story_section option" where
  "scan_sections [] acc = acc"
| "scan_sections (s # ss) (maxVisibility, newCurrentSection) =
     (if isVisible s \<and> visibilityRatio s > maxVisibility
      then scan_sections ss (visibilityRatio s, Some s)
      else scan_sections ss (maxVisibility, newCurrentSection))"

definition emit_log :: "effect \<Rightarrow> engine \<Rightarrow> engine" where
  "emit_log ev e = e\<lparr>trace := trace e @ [ev]\<rparr>"

definition updateCurrentSection :: "engine \<Rightarrow> engine" where
  "updateCurrentSection e =
     (case snd (scan_sections (sections e) (0, None)) of
        None \<Rightarrow> e
      | Some s \<Rightarrow>
          if Some (sid s) \<noteq> currentSection e
          then emit_log (SectionChange (sid s) (currentSection e))
                 (e\<lparr>currentSection := Some (sid s)\<rparr>)
          else e)"

subsection \<open>triggerSectionAnimations\<close>

text \<open>
  The \<open>forEach\<close> over \<open>section.animations\<close>: an entry that is not yet triggered gets a
  timer of \<open>delay * 1000\<close> ms and its flag is set in the same iteration.
  \<open>AnimationTimeout ms k i\<close> is the timer whose closure holds entry \<open>i\<close> of section \<open>k\<close>.
  The loop returns the entries as they are afterwards and the timers it set, in order.
\<close>

fun trigger_loop :: "string \<Rightarrow> nat \<Rightarrow> animation list \<Rightarrow> animation list \<times> effect list" where
  "trigger_loop k i [] = ([], [])"
| "trigger_loop k i (a # as) =
     (let (as', fx) = trigger_loop k (Suc i) as in
      if \<not> triggered a
      then (a\<lparr>triggered := True\<rparr> # as', AnimationTimeout (delay a * 1000) k i # fx)
      else (a # as', fx))"

definition triggerSectionAnimations :: "string \<Rightarrow> engine \<Rightarrow> engine" where
  "triggerSectionAnimations k e =
     (case map_get (sections e) k of
        None \<Rightarrow> e
      | Some s \<Rightarrow>
          let (as', fx) = trigger_loop k 0 (animations s) in
          e\<lparr>sections := map_modify k (\<lambda>s. s\<lparr>animations := as'\<rparr>) (sections e),
            trace := trace e @ fx\<rparr>)"

subsection \<open>handleSectionVisibility and the two observer callbacks\<close>

text \<open>
  The \<open>switch\<close> on the section type. Only the default branch touches the engine's own
  records (through \<open>triggerSectionAnimations\<close>); the other branches start DOM choreography,
  recorded as one effect each.
\<close>

definition handleSectionVisibility :: "story_section \<Rightarrow> entry \<Rightarrow> engine \<Rightarrow> engine" where
  "handleSectionVisibility s en e =
     (if stype s = ''hero'' then
        (if isIntersecting en then emit_log (HeroVideoPlay (sid s)) e else e)
      else if stype s = ''crisis'' then
        (if isIntersecting en \<and> intersectionRatio en > 0.5
         then emit_log (CounterAnimations (sid s)) e else e)
      else if stype s = ''solution'' then
        (if isIntersecting en then emit_log (ComparisonAnimation (sid s)) e else e)
      else if stype s = ''timeline'' then
        (if isIntersecting en then emit_log (TimelineAnimations (sid s)) e else e)
      else if stype s = ''investment'' then
        (if isIntersecting en then emit_log (TierAnimations (sid s)) e else e)
      else
        (if isIntersecting en then triggerSectionAnimations (sid s) e else e))"

text \<open>One iteration of \<open>handleIntersection\<close>'s \<open>entries.forEach\<close>.\<close>

definition handleEntry :: "entry \<Rightarrow> engine \<Rightarrow> engine" where
  "handleEntry en e =
     (case entry_section e en of
        None \<Rightarrow> e
      | Some s \<Rightarrow>
          let e1 = e\<lparr>sections := map_modify (sid s)
                      (\<lambda>s. s\<lparr>isVisible := isIntersecting en,
                               visibilityRatio := intersectionRatio en\<rparr>) (sections e)\<rparr>;
              e2 = updateCurrentSection e1;
              e3 = emit_log (if isIntersecting en then SectionEnter (sid s)
                             else SectionLeave (sid s)) e2
          in handleSectionVisibility s en e3)"

fun handleIntersection :: "entry list \<Rightarrow> engine \<Rightarrow> engine" where
  "handleIntersection [] e = e"
| "handleIntersection (en # ens) e = handleIntersection ens (handleEntry en e)"

definition handleAnimationEntry :: "entry \<Rightarrow> engine \<Rightarrow> engine" where
  "handleAnimationEntry en e =
     (if isIntersecting en then
        (case entry_section e en of
           None \<Rightarrow> e
         | Some s \<Rightarrow> if length (animations s) > 0 then triggerSectionAnimations (sid s) e else e)
      else e)"

fun handleAnimationTrigger :: "entry list \<Rightarrow> engine \<Rightarrow> engine" where
  "handleAnimationTrigger [] e = e"
| "handleAnimationTrigger (en # ens) e = handleAnimationTrigger ens (handleAnimationEntry en e)"

subsection \<open>Discovery\<close>

text \<open>
  The DOM as discovery sees it: a \<open>.story-section\<close> element with its id, its
  \<open>data-section-type\<close> and its \<open>[data-animate]\<close> descendants; for each of those the
  \<open>data-animate\<close> value and what \<open>parseFloat\<close> makes of the delay and duration
  attributes (\<open>None\<close> for \<open>NaN\<close>).
\<close>

record animated_element =
  ae_node :: node
  ae_animate :: string
  ae_delay :: "real option"
  ae_duration :: "real option"

record section_element =
  el_id :: string
  el_sectionType :: "string option"
  el_animated :: "animated_element list"

text \<open>\<open>x || d\<close> on a number: \<open>NaN\<close> and \<open>0\<close> are falsy.\<close>

definition num_or :: "real option \<Rightarrow> real \<Rightarrow> real" where
  "num_or x d = (case x of None \<Rightarrow> d | Some v \<Rightarrow> if v = 0 then d else v)"

definition str_or :: "string option \<Rightarrow> string \<Rightarrow> string" where
  "str_or x d = (case x of None \<Rightarrow> d | Some v \<Rightarrow> if v = [] then d else v)"

fun discover_anims :: "nat \<Rightarrow> animated_element list \<Rightarrow> animation list" where
  "discover_anims i [] = []"
| "discover_anims i (el # els) =
     \<lparr>element = ae_node el, atype = ae_animate el,
      delay = num_or (ae_delay el) (real i * 0.1),
      duration = num_or (ae_duration el) 0.8,
      triggered = False\<rparr> # discover_anims (Suc i) els"

definition discoverSectionAnimations :: "section_element \<Rightarrow> animation list" where
  "discoverSectionAnimations el = discover_anims 0 (el_animated el)"

function show_nat :: "nat \<Rightarrow> string" where
  "show_nat n = (if n < 10 then [char_of (48 + n)]
                 else show_nat (n div 10) @ [char_of (48 + n mod 10)])"
  by pat_completeness auto
termination
  by (relation "measure (\<lambda>n. n)") auto

declare show_nat.simps [simp del]

fun discover_loop :: "nat \<Rightarrow> section_element list \<Rightarrow> story_section list \<Rightarrow> story_section list" where
  "discover_loop i [] m = m"
| "discover_loop i (el # els) m =
     discover_loop (Suc i) els
       (map_set \<lparr>sid = (if el_id el \<noteq> [] then el_id el else ''section-'' @ show_nat i),
                 stype = str_or (el_sectionType el) ''default'',
                 sindex = i, isVisible = False, visibilityRatio = 0,
                 animations = discoverSectionAnimations el\<rparr> m)"

text \<open>The engine after the constructor and \<open>discoverSections\<close>.\<close>

definition discoverSections :: "section_element list \<Rightarrow> engine" where
  "discoverSections els =
     \<lparr>sections = discover_loop 0 els [], currentSection = None, trace = []\<rparr>"

subsection \<open>start\<close>

text \<open>
  \<open>start\<close> walks the map and triggers the animations of every section whose bounding
  box meets the viewport; \<open>inView\<close> is that test, read from the layout.
\<close>

fun start_loop :: "(string \<Rightarrow> bool) \<Rightarrow> string list \<Rightarrow> engine \<Rightarrow> engine" where
  "start_loop inView [] e = e"
| "start_loop inView (k # ks) e =
     start_loop inView ks (if inView k then triggerSectionAnimations k e else e)"

definition start :: "(string \<Rightarrow> bool) \<Rightarrow> engine \<Rightarrow> engine" where
  "start inView e = start_loop inView (map sid (sections e)) e"

subsection \<open>Runs of the page\<close>

text \<open>The batches the section observer delivers, one after the other.\<close>

fun run_batches :: "entry list list \<Rightarrow> engine \<Rightarrow> engine" where
  "run_batches [] e = e"
| "run_batches (b # bs) e = run_batches bs (handleIntersection b e)"

text \<open>Everything that can reach the Animation Entries after discovery: a batch of either
  observer, or a call of \<open>start\<close>.\<close>

datatype engine_event =
    SectionBatch "entry list"
  | AnimationBatch "entry list"
  | Start "string \<Rightarrow> bool"

fun engine_step :: "engine_event \<Rightarrow> engine \<Rightarrow> engine" where
  "engine_step (SectionBatch b) e = handleIntersection b e"
| "engine_step (AnimationBatch b) e = handleAnimationTrigger b e"
| "engine_step (Start inView) e = start inView e"

fun run_events :: "engine_event list \<Rightarrow> engine \<Rightarrow> engine" where
  "run_events [] e = e"
| "run_events (ev # evs) e = run_events evs (engine_step ev e)"

section \<open>The engine's event channel: on, off, emit\<close>

text \<open>\<open>xs[i]\<close> in JavaScript: \<open>undefined\<close> out of range.\<close>

definition js_nth :: "'a list \<Rightarrow> nat \<Rightarrow> 'a option" where
  "js_nth xs i = (if i < length xs then Some (xs ! i) else None)"

text \<open>
  A callback is a function object; \<open>off\<close> finds it by identity (\<open>indexOf\<close>), so a
  callback is a number here and what it does when called is looked up in a table. Called
  with the event's data on the state of the page, a callback leaves a new page state,
  may have called \<open>on\<close> and \<open>off\<close> of the engine on its way (in the order given), and
  either returns or throws (\<open>Some\<close> of the error). Callbacks that call \<open>emit\<close>
  themselves are not modelled.
\<close>

datatype registry_call = On string nat | Off string nat

type_synonym ('d, 'w) behaviour = "nat \<Rightarrow> 'd \<Rightarrow> 'w \<Rightarrow> 'w \<times> registry_call list \<times> string option"

text \<open>
  \<open>callbacks\<close> is the \<open>Map\<close> from event names to arrays. \<open>invoked\<close> records the
  callbacks called, in order, and \<open>console\<close> the lines of \<open>console.error\<close>.
\<close>

record 'w bus =
  callbacks :: "string \<Rightarrow> nat list option"
  page :: 'w
  console :: "string list"
  invoked :: "nat list"

definition on :: "string \<Rightarrow> nat \<Rightarrow> 'w bus \<Rightarrow> 'w bus" where
  "on ev cb b =
     (let m = (if callbacks b ev = None then (callbacks b)(ev \<mapsto> []) else callbacks b)
      in b\<lparr>callbacks := m(ev \<mapsto> the (m ev) @ [cb])\<rparr>)"

text \<open>\<open>indexOf\<close> and \<open>splice(index, 1)\<close> remove the first occurrence.\<close>

definition off :: "string \<Rightarrow> nat \<Rightarrow> 'w bus \<Rightarrow> 'w bus" where
  "off ev cb b =
     (case callbacks b ev of
        None \<Rightarrow> b
      | Some cs \<Rightarrow> if cb \<in> set cs then b\<lparr>callbacks := (callbacks b)(ev \<mapsto> remove1 cb cs)\<rparr> else b)"

fun registry_calls :: "registry_call list \<Rightarrow> 'w bus \<Rightarrow> 'w bus" where
  "registry_calls [] b = b"
| "registry_calls (On ev cb # rs) b = registry_calls rs (on ev cb b)"
| "registry_calls (Off ev cb # rs) b = registry_calls rs (off ev cb b)"

text \<open>One call inside the \<open>try\<close>: the callback runs, and an error it throws is logged.\<close>

definition call_guarded :: "('d, 'w) behaviour \<Rightarrow> string \<Rightarrow> 'd \<Rightarrow> nat \<Rightarrow> 'w bus \<Rightarrow> 'w bus" where
  "call_guarded beh ev d cb b =
     (let (w, rs, thrown) = beh cb d (page b);
          b1 = registry_calls rs (b\<lparr>page := w, invoked := invoked b @ [cb]\<rparr>)
      in case thrown of
           None \<Rightarrow> b1
         | Some err \<Rightarrow>
             b1\<lparr>console := console b1 @ [''Error in event callback for '' @ ev @ '': '' @ err]\<rparr>)"

text \<open>
  \<open>Array.prototype.forEach\<close> on the array of the event: the number of steps is the
  length the array had when \<open>forEach\<close> started, and step \<open>k\<close> reads index \<open>k\<close> of the
  array as it is at that moment (the same object that \<open>on\<close> and \<open>off\<close> write), skipping
  an index that is no longer there.
\<close>

fun forEach_loop :: "('d, 'w) behaviour \<Rightarrow> string \<Rightarrow> 'd \<Rightarrow> nat \<Rightarrow> nat \<Rightarrow> 'w bus \<Rightarrow> 'w bus" where
  "forEach_loop beh ev d 0 k b = b"
| "forEach_loop beh ev d (Suc r) k b =
     (case callbacks b ev of
        None \<Rightarrow> b
      | Some arr \<Rightarrow>
          (case js_nth arr k of
             None \<Rightarrow> forEach_loop beh ev d r (Suc k) b
           | Some cb \<Rightarrow> forEach_loop beh ev d r (Suc k) (call_guarded beh ev d cb b)))"

definition emit :: "('d, 'w) behaviour \<Rightarrow> string \<Rightarrow> 'd \<Rightarrow> 'w bus \<Rightarrow> 'w bus" where
  "emit beh ev d b =
     (case callbacks b ev of
        None \<Rightarrow> b
      | Some arr \<Rightarrow> forEach_loop beh ev d (length arr) 0 b)"

definition new_bus :: "'w \<Rightarrow> 'w bus" where
  "new_bus w = \<lparr>callbacks = Map.empty, page = w, console = [], invoked = []\<rparr>"

section \<open>Scroll progress\<close>

text \<open>
  What the progress code reads from the window: \<open>window.pageYOffset\<close>,
  \<open>document.documentElement.scrollTop\<close>, \<open>document.documentElement.scrollHeight\<close> and
  \<open>window.innerHeight\<close>, in pixels.
\<close>

record viewport =
  pageYOffset :: real
  de_scrollTop :: real
  de_scrollHeight :: real
  innerHeight :: real

text \<open>\<open>window.pageYOffset || document.documentElement.scrollTop\<close>\<close>

definition scrollTop :: "viewport \<Rightarrow> real" where
  "scrollTop v = (if pageYOffset v \<noteq> 0 then pageYOffset v else de_scrollTop v)"

subsection \<open>The engine's updateProgress\<close>

text \<open>
  The engine divides without a guard, so the quotient can be one of the special values
  of JavaScript numbers. Rounding is not modelled.
\<close>

datatype jsnum = Finite real | PosInf | NegInf | NaN

definition js_div :: "real \<Rightarrow> real \<Rightarrow> jsnum" where
  "js_div a b =
     (if b \<noteq> 0 then Finite (a / b)
      else if a = 0 then NaN
      else if a > 0 then PosInf else NegInf)"

text \<open>\<open>Math.min(x, 1)\<close>\<close>

fun js_min1 :: "jsnum \<Rightarrow> jsnum" where
  "js_min1 NaN = NaN"
| "js_min1 PosInf = Finite 1"
| "js_min1 NegInf = NegInf"
| "js_min1 (Finite r) = Finite (min r 1)"

definition updateProgress :: "viewport \<Rightarrow> jsnum" where
  "updateProgress v = js_min1 (js_div (scrollTop v) (de_scrollHeight v - innerHeight v))"

subsection \<open>The progress indicator's calculateScrollProgress (class ProgressIndicator)\<close>

definition lerp :: "real \<Rightarrow> real \<Rightarrow> real \<Rightarrow> real" where
  "lerp a b factor = a + (b - a) * factor"

text \<open>The new value of \<open>this.scrollProgress\<close>, from the \<open>smoothing\<close> option, the window
  and the old value.\<close>

definition calculateScrollProgress :: "bool \<Rightarrow> viewport \<Rightarrow> real \<Rightarrow> real" where
  "calculateScrollProgress smoothing v scrollProgress =
     (let scrollHeight = de_scrollHeight v - innerHeight v in
      if scrollHeight \<le> 0 then 0
      else
        let newProgress = min (max (scrollTop v / scrollHeight) 0) 1 in
        if smoothing then lerp scrollProgress newProgress 0.1 else newProgress)"

section \<open>Counters\<close>

text \<open>
  JavaScript numbers are IEEE doubles, and the counter code floors a product of rounded
  intermediate results, so rounding can change the integer shown. A finite double is
  taken as the real number it denotes, and the rounded operations of the runtime are a
  parameter of the model: \<open>fl_sub m a b\<close> is the double that \<open>a - b\<close> evaluates to, and
  so on; \<open>fl_pow m x n\<close> is \<open>Math.pow(x, n)\<close>. \<open>Math.min\<close>, \<open>Math.floor\<close> and the
  comparisons are exact on doubles.
\<close>

record js_math =
  fl_add :: "real \<Rightarrow> real \<Rightarrow> real"
  fl_sub :: "real \<Rightarrow> real \<Rightarrow> real"
  fl_mul :: "real \<Rightarrow> real \<Rightarrow> real"
  fl_div :: "real \<Rightarrow> real \<Rightarrow> real"
  fl_pow :: "real \<Rightarrow> nat \<Rightarrow> real"

text \<open>
  Arithmetic without rounding. It is what the runtime computes wherever the exact result
  of every operation involved is itself a double.
\<close>

definition exact_math :: js_math where
  "exact_math = \<lparr>fl_add = (+), fl_sub = (-), fl_mul = (*), fl_div = (/), fl_pow = (^)\<rparr>"

text \<open>
  What is assigned to \<open>element.textContent\<close>: a number (shown in its decimal form) or
  the string a formatter returned.
\<close>

datatype content = Number real | Text string

text \<open>
  The \<open>animate\<close> closure of both counter animations, run on the time stamps that the
  animation-frame callbacks receive. Each frame writes the eased value; a frame with
  \<open>progress < 1\<close> asks for another frame, any other frame writes the target and ends
  the animation. The result is the list of numbers written, in order, and whether the
  animation has ended with the frames given.
\<close>

fun counter_frames ::
    "js_math \<Rightarrow> real \<Rightarrow> real \<Rightarrow> real \<Rightarrow> real \<Rightarrow> real list \<Rightarrow> real list \<times> bool" where
  "counter_frames m startValue target duration_ms startTime [] = ([], False)"
| "counter_frames m startValue target duration_ms startTime (currentTime # later) =
     (let elapsed = fl_sub m currentTime startTime;
          progress = min (fl_div m elapsed duration_ms) 1;
          easeOut = fl_sub m 1 (fl_pow m (fl_sub m 1 progress) 3);
          currentValue =
            real_of_int \<lfloor>fl_add m startValue (fl_mul m (fl_sub m target startValue) easeOut)\<rfloor>
      in if progress < 1
         then (let (ws, ended) = counter_frames m startValue target duration_ms startTime later
               in (currentValue # ws, ended))
         else ([currentValue, target], True))"

text \<open>The engine's \<open>animateCounter\<close>: \<open>target\<close> is \<open>parseInt(element.dataset.target) || 0\<close>,
  an integer; two seconds, from 0.\<close>

definition animateCounter :: "js_math \<Rightarrow> int \<Rightarrow> real \<Rightarrow> real list \<Rightarrow> content list \<times> bool" where
  "animateCounter m target startTime frames =
     (let (ws, ended) = counter_frames m 0 (real_of_int target) 2000 startTime frames
      in (map Number ws, ended))"

text \<open>The options of the animation controller's counter.\<close>

record counter_options =
  co_duration :: "real option"
  co_startValue :: "real option"
  co_formatter :: "(real \<Rightarrow> string) option"

definition render :: "counter_options \<Rightarrow> real \<Rightarrow> content" where
  "render opts x = (case co_formatter opts of None \<Rightarrow> Number x | Some f \<Rightarrow> Text (f x))"

definition animateCounterCSS ::
    "js_math \<Rightarrow> real \<Rightarrow> counter_options \<Rightarrow> real \<Rightarrow> real list \<Rightarrow> content list \<times> bool" where
  "animateCounterCSS m target opts startTime frames =
     (let (ws, ended) = counter_frames m (num_or (co_startValue opts) 0) target
                          (fl_mul m (num_or (co_duration opts) 2) 1000) startTime frames
      in (map (render opts) ws, ended))"

section \<open>Navigation controller (class NavigationController, in public/content/galleries.json)\<close>

subsection \<open>Data\<close>

text \<open>A navigable section as \<open>discoverSections\<close> records it; of the element only
  \<open>offsetTop\<close> is read.\<close>

record nav_section =
  ns_id :: string
  ns_index :: nat
  ns_offsetTop :: real

record nav_options =
  keyboardNavigation :: bool
  smoothScroll :: bool
  updateURL_opt :: bool
  scrollOffset :: real

record history_entry =
  h_from :: nat
  h_to :: nat
  h_timestamp :: nat

text \<open>
  The closure handed to \<open>scrollToSection(section).then\<close>: it holds \<open>section\<close>,
  \<open>sectionId\<close>, \<open>previousIndex\<close> and the \<open>updateURL\<close> argument.
\<close>

record pending_navigation =
  p_section :: nav_section
  p_sectionId :: string
  p_previousIndex :: nat
  p_updateURL :: bool

text \<open>
  The controller, together with the two pieces of the browser it writes: the fragment of
  the location and the promise callback waiting for the scroll to end.
\<close>

record nav =
  nav_sections :: "nav_section list"
  currentSectionIndex :: nat
  isNavigating :: bool
  navigationHistory :: "history_entry list"
  nav_opts :: nav_options
  location_hash :: string
  in_flight :: "pending_navigation option"

datatype nav_effect =
    Warn string
  | ScrollTo real bool
  | PushState string
  | ActiveLink string
  | NavigateEvent string nat nat
  | PreventDefault
  | FocusMainNav

subsection \<open>navigateToSection and the completion of the scroll\<close>

definition find_section :: "nav_section list \<Rightarrow> string \<Rightarrow> nav_section option" where
  "find_section ss k = find (\<lambda>s. ns_id s = k) ss"

text \<open>\<open>Date.now()\<close> is the argument \<open>now\<close>.\<close>

definition navigateToSection :: "string \<Rightarrow> bool \<Rightarrow> nat \<Rightarrow> nav \<Rightarrow> nav \<times> nav_effect list" where
  "navigateToSection sectionId updateURL now st =
     (if isNavigating st then (st, [])
      else case find_section (nav_sections st) sectionId of
        None \<Rightarrow> (st, [Warn (''Section '' @ sectionId @ '' not found'')])
      | Some s \<Rightarrow>
          (st\<lparr>isNavigating := True,
              currentSectionIndex := ns_index s,
              navigationHistory := navigationHistory st @
                 [\<lparr>h_from = currentSectionIndex st, h_to = ns_index s, h_timestamp = now\<rparr>],
              in_flight := Some \<lparr>p_section = s, p_sectionId = sectionId,
                                 p_previousIndex = currentSectionIndex st,
                                 p_updateURL = updateURL\<rparr>\<rparr>,
           [ScrollTo (ns_offsetTop s + scrollOffset (nav_opts st)) (smoothScroll (nav_opts st))]))"

definition updateActiveNavigation :: "nav \<Rightarrow> nav_effect list" where
  "updateActiveNavigation st =
     (case js_nth (nav_sections st) (currentSectionIndex st) of
        None \<Rightarrow> []
      | Some s \<Rightarrow> [ActiveLink (ns_id s)])"

text \<open>
  The promise callback, run when the scroll animation resolves: \<open>updateURL\<close> (a
  \<open>pushState\<close>, which sets the fragment), \<open>updateActiveNavigation\<close>, the
  \<open>navigation:navigate\<close> event and, last, \<open>isNavigating = false\<close>.
\<close>

definition scroll_done :: "nav \<Rightarrow> nav \<times> nav_effect list" where
  "scroll_done st =
     (case in_flight st of
        None \<Rightarrow> (st, [])
      | Some p \<Rightarrow>
          let push = p_updateURL p \<and> updateURL_opt (nav_opts st);
              st1 = (if push then st\<lparr>location_hash := p_sectionId p\<rparr> else st)
          in (st1\<lparr>isNavigating := False, in_flight := None\<rparr>,
              (if push then [PushState (CHR ''#'' # p_sectionId p)] else [])
              @ updateActiveNavigation st1
              @ [NavigateEvent (ns_id (p_section p)) (p_previousIndex p)
                   (currentSectionIndex st1)]))"

subsection \<open>The requests\<close>

text \<open>
  A handler either returns or throws; \<open>Inl\<close> is the uncaught \<open>TypeError\<close> of reading
  \<open>.id\<close> of \<open>undefined\<close>.
\<close>

type_synonym nav_result = "string + nav \<times> nav_effect list"

definition navigateNext :: "nat \<Rightarrow> nav \<Rightarrow> nav_result" where
  "navigateNext now st =
     (if int (currentSectionIndex st) < int (length (nav_sections st)) - 1 then
        (case js_nth (nav_sections st) (currentSectionIndex st + 1) of
           None \<Rightarrow> Inl ''TypeError''
         | Some s \<Rightarrow> Inr (navigateToSection (ns_id s) True now st))
      else Inr (st, []))"

definition navigatePrevious :: "nat \<Rightarrow> nav \<Rightarrow> nav_result" where
  "navigatePrevious now st =
     (if currentSectionIndex st > 0 then
        (case js_nth (nav_sections st) (currentSectionIndex st - 1) of
           None \<Rightarrow> Inl ''TypeError''
         | Some s \<Rightarrow> Inr (navigateToSection (ns_id s) True now st))
      else Inr (st, []))"

text \<open>\<open>handleHashChange\<close>, after the browser has set the fragment to \<open>h\<close>.\<close>

definition handleHashChange :: "nat \<Rightarrow> nav \<Rightarrow> nav \<times> nav_effect list" where
  "handleHashChange now st =
     (if location_hash st \<noteq> [] \<and> find_section (nav_sections st) (location_hash st) \<noteq> None
      then navigateToSection (location_hash st) False now st
      else (st, []))"

text \<open>\<open>handleNavClick\<close> on a link whose \<open>href\<close> is \<open>#\<close> followed by \<open>sectionId\<close>.\<close>

definition handleNavClick :: "string \<Rightarrow> nat \<Rightarrow> nav \<Rightarrow> nav \<times> nav_effect list" where
  "handleNavClick sectionId now st =
     (let (st', fx) =
        (if sectionId \<noteq> [] \<and> find_section (nav_sections st) sectionId \<noteq> None
         then navigateToSection sectionId True now st
         else (st, []))
      in (st', PreventDefault # fx))"

text \<open>\<open>handleFocusChange\<close>: \<open>k\<close> is the id of the \<open>.story-section\<close> around the focused
  element, if there is such a section; an empty id is falsy.\<close>

definition find_index :: "nav_section list \<Rightarrow> string \<Rightarrow> nat option" where
  "find_index ss k =
     (if \<exists>s \<in> set ss. ns_id s = k
      then Some (length (takeWhile (\<lambda>s. ns_id s \<noteq> k) ss)) else None)"

definition handleFocusChange :: "string option \<Rightarrow> nav \<Rightarrow> nav \<times> nav_effect list" where
  "handleFocusChange k st =
     (case k of
        None \<Rightarrow> (st, [])
      | Some k \<Rightarrow>
          if k = [] then (st, [])
          else
            (case find_index (nav_sections st) k of
               None \<Rightarrow> (st, [])
             | Some i \<Rightarrow>
                 if i \<noteq> currentSectionIndex st
                 then (st\<lparr>currentSectionIndex := i\<rparr>,
                       updateActiveNavigation (st\<lparr>currentSectionIndex := i\<rparr>))
                 else (st, [])))"

text \<open>A \<open>keydown\<close> event: whether its target is a form control, the key, and whether
  Ctrl or Meta is held.\<close>

record key_event =
  in_form_control :: bool
  key :: string
  ctrl_or_meta :: bool

definition prevented :: "nav_result \<Rightarrow> nav_result" where
  "prevented r = (case r of Inl x \<Rightarrow> Inl x | Inr (st, fx) \<Rightarrow> Inr (st, PreventDefault # fx))"

text \<open>The nine \<open>case\<close> labels for the digit keys are the one-character strings with
  codes 49 to 57; \<open>parseInt(event.key) - 1\<close> is the code minus 49.\<close>

definition digit_index :: "string \<Rightarrow> nat option" where
  "digit_index k =
     (case k of
        [c] \<Rightarrow> (let n = (of_char c :: nat) in if 49 \<le> n \<and> n \<le> 57 then Some (n - 49) else None)
      | _ \<Rightarrow> None)"

definition handleKeydown :: "key_event \<Rightarrow> nat \<Rightarrow> nav \<Rightarrow> nav_result" where
  "handleKeydown ev now st =
     (if in_form_control ev then Inr (st, [])
      else if key ev \<in> set [''ArrowDown'', ''PageDown'', '' ''] then
        prevented (navigateNext now st)
      else if key ev \<in> set [''ArrowUp'', ''PageUp''] then
        prevented (navigatePrevious now st)
      else if key ev = ''Home'' then
        (case js_nth (nav_sections st) 0 of
           None \<Rightarrow> Inl ''TypeError''
         | Some s \<Rightarrow> prevented (Inr (navigateToSection (ns_id s) True now st)))
      else if key ev = ''End'' then
        (if nav_sections st = [] then Inl ''TypeError''
         else prevented (Inr (navigateToSection (ns_id (last (nav_sections st))) True now st)))
      else if key ev = ''Escape'' then Inr (st, [PreventDefault, FocusMainNav])
      else case digit_index (key ev) of
        None \<Rightarrow> Inr (st, [])
      | Some i \<Rightarrow>
          if ctrl_or_meta ev then
            (case js_nth (nav_sections st) i of
               None \<Rightarrow> Inr (st, [PreventDefault])
             | Some s \<Rightarrow> prevented (Inr (navigateToSection (ns_id s) True now st)))
          else Inr (st, []))"

subsection \<open>Everything that happens to the controller\<close>

datatype nav_event =
    NavigateTo string bool
  | NavigateNext
  | NavigatePrevious
  | HashChange string
  | NavClick string
  | Keydown key_event
  | FocusChange "string option"
  | ScrollDone

definition nav_handle :: "nat \<Rightarrow> nav_event \<Rightarrow> nav \<Rightarrow> nav_result" where
  "nav_handle now ev st =
     (case ev of
        NavigateTo k u \<Rightarrow> Inr (navigateToSection k u now st)
      | NavigateNext \<Rightarrow> navigateNext now st
      | NavigatePrevious \<Rightarrow> navigatePrevious now st
      | HashChange h \<Rightarrow> Inr (handleHashChange now (st\<lparr>location_hash := h\<rparr>))
      | NavClick k \<Rightarrow> Inr (handleNavClick k now st)
      | Keydown kev \<Rightarrow> handleKeydown kev now st
      | FocusChange k \<Rightarrow> Inr (handleFocusChange k st)
      | ScrollDone \<Rightarrow> Inr (scroll_done st))"

text \<open>The state after an event; a handler that throws does so before it writes anything.\<close>

definition settle :: "nav \<Rightarrow> nav_result \<Rightarrow> nav" where
  "settle st r = (case r of Inl x \<Rightarrow> st | Inr (st', fx) \<Rightarrow> st')"

definition nav_step :: "nat \<times> nav_event \<Rightarrow> nav \<Rightarrow> nav" where
  "nav_step tev st = settle st (nav_handle (fst tev) (snd tev) st)"

fun nav_run :: "(nat \<times> nav_event) list \<Rightarrow> nav \<Rightarrow> nav" where
  "nav_run [] st = st"
| "nav_run (tev # tevs) st = nav_run tevs (nav_step tev st)"

text \<open>The controller after the constructor and \<open>discoverSections\<close> on sections with the
  given ids and offsets, with the default options.\<close>

fun nav_discover :: "nat \<Rightarrow> (string \<times> real) list \<Rightarrow> nav_section list" where
  "nav_discover i [] = []"
| "nav_discover i ((k, y) # els) =
     \<lparr>ns_id = k, ns_index = i, ns_offsetTop = y\<rparr> # nav_discover (Suc i) els"

definition nav_init :: "(string \<times> real) list \<Rightarrow> nav" where
  "nav_init els =
     \<lparr>nav_sections = nav_discover 0 els, currentSectionIndex = 0, isNavigating = False,
      navigationHistory = [],
      nav_opts = \<lparr>keyboardNavigation = True, smoothScroll = True, updateURL_opt = True,
                  scrollOffset = 0\<rparr>,
      location_hash = [], in_flight = None\<rparr>"

section \<open>Accessibility controller: the focus history (src/js/accessibility-controller.js)\<close>

text \<open>
  \<open>handleFocus\<close> pushes an entry and shifts the oldest one out when the length exceeds
  50; the entries themselves are opaque here.
\<close>

definition handleFocus :: "'a \<Rightarrow> 'a list \<Rightarrow> 'a list" where
  "handleFocus x focusHistory =
     (let h = focusHistory @ [x] in if length h > 50 then tl h else h)"

section \<open>Animation controller (src/js/animation-controller.js)\<close>

text \<open>The part of a DOM element that the controller writes.\<close>

record dom_element =
  style_opacity :: string
  style_transform :: string
  classList :: "string list"
  textContent :: content

record controller =
  reducedMotion :: bool
  respectReducedMotion :: bool
  gsap_available :: bool

text \<open>What an animation call starts: timers, animation frames, or calls into the
  animation library.\<close>

datatype animation_start =
    CssTimeout real
  | AnimationFrameRequest
  | GsapSet
  | GsapTo

definition shouldSkipAnimation :: "controller \<Rightarrow> bool" where
  "shouldSkipAnimation c \<longleftrightarrow> reducedMotion c \<and> respectReducedMotion c"

definition classList_add :: "string \<Rightarrow> string list \<Rightarrow> string list" where
  "classList_add c cs = (if c \<in> set cs then cs else cs @ [c])"

definition showElementImmediately :: "dom_element \<Rightarrow> dom_element" where
  "showElementImmediately el =
     el\<lparr>style_opacity := ''1'', style_transform := ''none'',
        classList := classList_add ''visible'' (classList el)\<rparr>"

text \<open>
  \<open>animateIn\<close>: the element as it is when the call returns, and what the call has
  started. The CSS path adds its classes only in the timer, the library path hands the
  element to the library.
\<close>

definition animateIn ::
    "controller \<Rightarrow> dom_element \<Rightarrow> string \<Rightarrow> real option \<Rightarrow> dom_element \<times> animation_start list" where
  "animateIn c el type opt_delay =
     (if shouldSkipAnimation c then (showElementImmediately el, [])
      else if \<not> gsap_available c then (el, [CssTimeout (num_or opt_delay 0 * 1000)])
      else (el, [GsapSet, GsapTo]))"

text \<open>
  The controller's \<open>animateCounter\<close>: the element when the animation has run on the given
  frames, the number of animation-frame callbacks that ran, and what the call started.
  The library path leaves the writes to the library's tween.
\<close>

definition frames_run :: "content list \<times> bool \<Rightarrow> nat" where
  "frames_run r = (if snd r then length (fst r) - 1 else length (fst r))"

definition write_all :: "content list \<Rightarrow> dom_element \<Rightarrow> dom_element" where
  "write_all ws el = (if ws = [] then el else el\<lparr>textContent := last ws\<rparr>)"

definition controller_animateCounter ::
    "js_math \<Rightarrow> controller \<Rightarrow> dom_element \<Rightarrow> real \<Rightarrow> counter_options \<Rightarrow> real \<Rightarrow> real list
      \<Rightarrow> dom_element \<times> nat \<times> animation_start list" where
  "controller_animateCounter m c el target opts startTime frames =
     (if shouldSkipAnimation c then (el\<lparr>textContent := Number target\<rparr>, 0, [])
      else if \<not> gsap_available c then
        (let r = animateCounterCSS m target opts startTime frames
         in (write_all (fst r) el, frames_run r, [AnimationFrameRequest]))
      else (el, 0, [GsapTo]))"

section \<open>Media controller (class MediaController, in src/js/content-manager.js)\<close>

datatype media_type = Image | Video | BackgroundVideo | Picture

text \<open>
  A media record as \<open>registerMediaElement\<close> builds it, with the two facts about its
  element that loading reads: the \<open>src\<close> a video element already has, and whether a
  picture element contains an \<open>img\<close>.
\<close>

record media =
  m_id :: string
  m_type :: media_type
  loaded :: bool
  loading :: bool
  error :: bool
  src :: "string option"
  fallbackSrc :: "string option"
  video_src :: "string option"
  has_img :: bool

datatype media_event =
    Attempt "string option"
  | LoadedEvent string
  | ErrorEvent string
  | ConsoleError string
  | ConsoleLog string

text \<open>A string that is \<open>null\<close>, \<open>undefined\<close> or empty is falsy.\<close>

definition truthy :: "string option \<Rightarrow> bool" where
  "truthy x = (case x of None \<Rightarrow> False | Some v \<Rightarrow> v \<noteq> [])"

text \<open>
  One pass through the \<open>switch\<close> of \<open>loadMedia\<close>: \<open>loadImage\<close>, \<open>loadVideo\<close> or
  \<open>loadPicture\<close>. The network is the predicate \<open>fetches\<close>: whether a URL loads. The
  result is the record as the pass leaves it, the URL it asked for, and whether the
  promise resolved.
\<close>

definition loadImage :: "(string \<Rightarrow> bool) \<Rightarrow> media \<Rightarrow> media \<times> string option \<times> bool" where
  "loadImage fetches m =
     (if \<not> truthy (src m) then (m, None, False)
      else (m, src m, fetches (the (src m))))"

definition loadVideo :: "(string \<Rightarrow> bool) \<Rightarrow> media \<Rightarrow> media \<times> string option \<times> bool" where
  "loadVideo fetches m =
     (let m' = (if truthy (src m) \<and> \<not> truthy (video_src m) then m\<lparr>video_src := src m\<rparr> else m)
      in (m', video_src m', truthy (video_src m') \<and> fetches (the (video_src m'))))"

definition loadPicture :: "(string \<Rightarrow> bool) \<Rightarrow> media \<Rightarrow> media \<times> string option \<times> bool" where
  "loadPicture fetches m =
     (if \<not> has_img m then (m, None, False)
      else loadImage fetches (m\<lparr>m_type := Image\<rparr>))"

definition load_by_type :: "(string \<Rightarrow> bool) \<Rightarrow> media \<Rightarrow> media \<times> string option \<times> bool" where
  "load_by_type fetches m =
     (case m_type m of
        Image \<Rightarrow> loadImage fetches m
      | Video \<Rightarrow> loadVideo fetches m
      | BackgroundVideo \<Rightarrow> loadVideo fetches m
      | Picture \<Rightarrow> loadPicture fetches m)"

text \<open>
  \<open>loadMedia\<close> and \<open>loadFallback\<close> call each other, and nothing in the source bounds how
  often. The first argument bounds the number of \<open>loadMedia\<close> calls that are followed;
  the boolean of the result says whether the outermost call has returned within that
  bound. The events are recorded in order. \<open>loadMedia\<close> catches every error of a load
  itself, so its promise never rejects and the \<open>catch\<close> of \<open>loadFallback\<close> has no
  branch here.
\<close>

function loadMedia ::
    "nat \<Rightarrow> (string \<Rightarrow> bool) \<Rightarrow> media \<times> media_event list \<Rightarrow> (media \<times> media_event list) \<times> bool"
  and loadFallback ::
    "nat \<Rightarrow> (string \<Rightarrow> bool) \<Rightarrow> media \<times> media_event list \<Rightarrow> (media \<times> media_event list) \<times> bool"
  where
  "loadMedia 0 fetches w = (w, False)"
| "loadMedia (Suc n) fetches (m, tr) =
     (if loading m \<or> loaded m then ((m, tr), True)
      else
        let (m1, url, ok) = load_by_type fetches (m\<lparr>loading := True\<rparr>) in
        if ok then
          ((m1\<lparr>loaded := True, loading := False\<rparr>, tr @ [Attempt url, LoadedEvent (m_id m1)]), True)
        else
          let m2 = m1\<lparr>error := True, loading := False\<rparr>;
              tr2 = tr @ [Attempt url, ConsoleError ''Failed to load media'']
          in if truthy (fallbackSrc m2) then
               (let ((m3, tr3), returned) = loadFallback n fetches (m2, tr2)
                in if returned then ((m3, tr3 @ [ErrorEvent (m_id m3)]), True)
                   else ((m3, tr3), False))
             else ((m2, tr2 @ [ErrorEvent (m_id m2)]), True))"
| "loadFallback n fetches (m, tr) =
     (let ((m1, tr1), returned) = loadMedia n fetches (m\<lparr>src := fallbackSrc m\<rparr>, tr)
      in if returned then ((m1, tr1 @ [ConsoleLog ''Loaded fallback'']), True)
         else ((m1, tr1), False))"
  by pat_completeness auto
termination
  by (relation "measure (\<lambda>x. case x of Inl (n, _, _) \<Rightarrow> 2 * n | Inr (n, _, _) \<Rightarrow> 2 * n + 1)")
     auto

fun is_attempt :: "media_event \<Rightarrow> bool" where
  "is_attempt (Attempt url) = True"
| "is_attempt _ = False"

definition attempts :: "(media \<times> media_event list) \<times> bool \<Rightarrow> nat" where
  "attempts r = length (filter is_attempt (snd (fst r)))"

section \<open>What is expected of emit, and sample callbacks\<close>

text \<open>
  Calling the callbacks \<open>cs\<close> one after the other, each on the page state the previous one
  left, whether it threw or not, and logging one line per error.
\<close>

fun deliver :: "('d, 'w) behaviour \<Rightarrow> string \<Rightarrow> 'd \<Rightarrow> nat list \<Rightarrow> 'w \<times> string list \<Rightarrow> 'w \<times> string list" where
  "deliver beh ev d [] acc = acc"
| "deliver beh ev d (cb # cs) (w, lines) =
     (let (w', rs, thrown) = beh cb d w
      in deliver beh ev d cs
           (w', case thrown of
                  None \<Rightarrow> lines
                | Some err \<Rightarrow> lines @ [''Error in event callback for '' @ ev @ '': '' @ err]))"

fun removes_from :: "string \<Rightarrow> registry_call \<Rightarrow> bool" where
  "removes_from ev (Off ev' cb) = (ev' = ev)"
| "removes_from ev (On ev' cb) = False"

text \<open>None of the callbacks \<open>cs\<close>, called with \<open>d\<close>, ever calls \<open>off\<close> for the event.\<close>

definition keeps_registrations :: "('d, 'w) behaviour \<Rightarrow> string \<Rightarrow> 'd \<Rightarrow> nat list \<Rightarrow> bool" where
  "keeps_registrations beh ev d cs \<longleftrightarrow>
     (\<forall>cb \<in> set cs. \<forall>w. \<forall>r \<in> set (fst (snd (beh cb d w))). \<not> removes_from ev r)"

text \<open>
  Sample callbacks on a page state that is a counter: 1 adds one and then unregisters
  itself from \<open>sectionChange\<close>; 2 adds ten; 3 adds a hundred and throws; any other
  callback does nothing.
\<close>

definition sample_callbacks :: "(unit, nat) behaviour" where
  "sample_callbacks cb d w =
     (if cb = 1 then (w + 1, [Off ''sectionChange'' 1], None)
      else if cb = 2 then (w + 10, [], None)
      else if cb = 3 then (w + 100, [], Some ''boom'')
      else (w, [], None))"

section \<open>What the specification says, and sample inputs\<close>

subsection \<open>The current section\<close>

text \<open>
  A section qualifies when it is visible, its ratio is positive and no visible section has
  a greater ratio. \<open>spec_current\<close> is the first qualifying section in iteration order.
\<close>

definition qualifies :: "story_section list \<Rightarrow> story_section \<Rightarrow> bool" where
  "qualifies ss s \<longleftrightarrow>
     isVisible s \<and> 0 < visibilityRatio s \<and>
     (\<forall>t \<in> set ss. isVisible t \<longrightarrow> visibilityRatio t \<le> visibilityRatio s)"

definition spec_current :: "story_section list \<Rightarrow> string option" where
  "spec_current ss = map_option sid (find (qualifies ss) ss)"

text \<open>The same without the positivity condition: the visible section of greatest ratio,
  the first one on a tie, whatever that ratio is.\<close>

definition max_visible :: "story_section list \<Rightarrow> story_section \<Rightarrow> bool" where
  "max_visible ss s \<longleftrightarrow>
     isVisible s \<and>
     (\<forall>t \<in> set ss. isVisible t \<longrightarrow> visibilityRatio t \<le> visibilityRatio s)"

definition stated_current :: "story_section list \<Rightarrow> string option" where
  "stated_current ss = map_option sid (find (max_visible ss) ss)"

text \<open>The part of the section records that visibility tracking reads and writes.\<close>

definition visibility :: "story_section list \<Rightarrow> (string \<times> bool \<times> real) list" where
  "visibility ss = map (\<lambda>s. (sid s, isVisible s, visibilityRatio s)) ss"

text \<open>The running maximum of the loop, started at \<open>m\<close> instead of 0.\<close>

definition above :: "real \<Rightarrow> story_section list \<Rightarrow> story_section \<Rightarrow> bool" where
  "above m ss s \<longleftrightarrow>
     isVisible s \<and> m < visibilityRatio s \<and>
     (\<forall>t \<in> set ss. isVisible t \<longrightarrow> visibilityRatio t \<le> visibilityRatio s)"

definition tracks_choice :: "engine \<Rightarrow> bool" where
  "tracks_choice e \<longleftrightarrow>
     (case spec_current (sections e) of None \<Rightarrow> True | Some k \<Rightarrow> currentSection e = Some k)"

text \<open>The page of the specification's example: three sections without animated elements.\<close>

definition plain_section :: "string \<Rightarrow> section_element" where
  "plain_section k = \<lparr>el_id = k, el_sectionType = None, el_animated = []\<rparr>"

definition story_page :: "section_element list" where
  "story_page = [plain_section ''intro'', plain_section ''problem'', plain_section ''solution'']"

definition observed :: "string \<Rightarrow> bool \<Rightarrow> real \<Rightarrow> entry" where
  "observed k v r =
     \<lparr>target_id = k, target_sectionId = None, isIntersecting = v, intersectionRatio = r\<rparr>"

subsection \<open>Animation entries\<close>

text \<open>Entry \<open>j\<close> of section \<open>k\<close> has its \<open>triggered\<close> flag set.\<close>

definition flag :: "engine \<Rightarrow> string \<Rightarrow> nat \<Rightarrow> bool" where
  "flag e k j =
     (case map_get (sections e) k of
        None \<Rightarrow> False
      | Some s \<Rightarrow> j < length (animations s) \<and> triggered (animations s ! j))"

fun is_timer :: "string \<Rightarrow> nat \<Rightarrow> effect \<Rightarrow> bool" where
  "is_timer k j (AnimationTimeout ms k' j') = (k' = k \<and> j' = j)"
| "is_timer k j _ = False"

text \<open>How many timers have been set for entry \<open>j\<close> of section \<open>k\<close>.\<close>

definition timers_set :: "string \<Rightarrow> nat \<Rightarrow> effect list \<Rightarrow> nat" where
  "timers_set k j tr = length (filter (is_timer k j) tr)"

definition timers_match_flags :: "engine \<Rightarrow> bool" where
  "timers_match_flags e \<longleftrightarrow>
     (\<forall>k j. timers_set k j (trace e) = (if flag e k j then 1 else 0))"

text \<open>A page with one default section holding two animated elements.\<close>

definition animated_page :: "section_element list" where
  "animated_page =
     [\<lparr>el_id = ''intro'', el_sectionType = None,
       el_animated = [\<lparr>ae_node = 1, ae_animate = ''fade-up'', ae_delay = None, ae_duration = None\<rparr>,
                      \<lparr>ae_node = 2, ae_animate = ''counter'', ae_delay = Some 0.5, ae_duration = None\<rparr>]\<rparr>]"

definition is_timer_free :: "effect \<Rightarrow> bool" where
  "is_timer_free ev \<longleftrightarrow> (\<forall>k j. \<not> is_timer k j ev)"

subsection \<open>Navigation\<close>

text \<open>The events that ask for a navigation: calls of the three operations, link clicks
  and key presses.\<close>

fun is_request :: "nav_event \<Rightarrow> bool" where
  "is_request (NavigateTo k u) = True"
| "is_request NavigateNext = True"
| "is_request NavigatePrevious = True"
| "is_request (NavClick k) = True"
| "is_request (Keydown kev) = True"
| "is_request _ = False"

definition guard_consistent :: "nav \<Rightarrow> bool" where
  "guard_consistent st \<longleftrightarrow> (isNavigating st \<longleftrightarrow> in_flight st \<noteq> None)"

text \<open>A page of two sections, and \<open>n\<close> completed navigations to the first of them.\<close>

definition two_pages :: "(string \<times> real) list" where
  "two_pages = [(''intro'', 0), (''problem'', 800)]"

fun round_trips :: "nat \<Rightarrow> (nat \<times> nav_event) list" where
  "round_trips 0 = []"
| "round_trips (Suc n) = (n, NavigateTo ''intro'' True) # (n, ScrollDone) # round_trips n"

text \<open>The history of \<open>st'\<close> starts with the history of \<open>st\<close>.\<close>

definition grows :: "nav \<Rightarrow> nav \<Rightarrow> bool" where
  "grows st st' \<longleftrightarrow>
     take (length (navigationHistory st)) (navigationHistory st') = navigationHistory st"

subsection \<open>Scroll fraction\<close>

definition clamp01 :: "real \<Rightarrow> real" where
  "clamp01 x = (if x < 0 then 0 else if x > 1 then 1 else x)"

text \<open>clamp(scrollTop / (documentHeight - viewportHeight), 0, 1), and 0 when the document
  is not taller than the viewport.\<close>

definition spec_fraction :: "viewport \<Rightarrow> real" where
  "spec_fraction v =
     (if de_scrollHeight v \<le> innerHeight v then 0
      else clamp01 (scrollTop v / (de_scrollHeight v - innerHeight v)))"

text \<open>Three windows: the middle of a long page, a page exactly as tall as the viewport,
  and a long page pulled 50 pixels above its top by elastic scrolling.\<close>

definition mid_page :: viewport where
  "mid_page = \<lparr>pageYOffset = 500, de_scrollTop = 500, de_scrollHeight = 1800, innerHeight = 800\<rparr>"

definition short_page :: viewport where
  "short_page = \<lparr>pageYOffset = 0, de_scrollTop = 0, de_scrollHeight = 800, innerHeight = 800\<rparr>"

definition bounced_page :: viewport where
  "bounced_page = \<lparr>pageYOffset = - 50, de_scrollTop = - 50, de_scrollHeight = 1800,
                    innerHeight = 800\<rparr>"

subsection \<open>Counter values\<close>

definition ease_out_cubic :: "real \<Rightarrow> real" where
  "ease_out_cubic t = 1 - (1 - t) ^ 3"

text \<open>floor(start + (T - start) * (1 - (1 - t)^3)) with t = elapsed / duration clamped to
  [0, 1].\<close>

definition spec_counter_value :: "real \<Rightarrow> real \<Rightarrow> real \<Rightarrow> real \<Rightarrow> real \<Rightarrow> real" where
  "spec_counter_value start0 T d startTime t =
     real_of_int \<lfloor>start0 + (T - start0) * ease_out_cubic (clamp01 ((t - startTime) / d))\<rfloor>"

text \<open>
  The same in the arithmetic of the runtime, with t clamped from above only:
  \<open>Math.min(elapsed / duration, 1)\<close>.
\<close>

definition frame_progress :: "js_math \<Rightarrow> real \<Rightarrow> real \<Rightarrow> real \<Rightarrow> real" where
  "frame_progress m d startTime t = min (fl_div m (fl_sub m t startTime) d) 1"

definition frame_value :: "js_math \<Rightarrow> real \<Rightarrow> real \<Rightarrow> real \<Rightarrow> real \<Rightarrow> real \<Rightarrow> real" where
  "frame_value m start0 T d startTime t =
     real_of_int \<lfloor>fl_add m start0
        (fl_mul m (fl_sub m T start0)
           (fl_sub m 1 (fl_pow m (fl_sub m 1 (frame_progress m d startTime t)) 3)))\<rfloor>"

text \<open>
  The numbers a counter is expected to show on the frames \<open>ts\<close>: the frame value on every
  frame up to and including the first one whose t has reached 1, then the target.
\<close>

definition expected_writes ::
    "js_math \<Rightarrow> real \<Rightarrow> real \<Rightarrow> real \<Rightarrow> real \<Rightarrow> real list \<Rightarrow> real list" where
  "expected_writes m start0 T d startTime ts =
     map (frame_value m start0 T d startTime)
         (takeWhile (\<lambda>t. frame_progress m d startTime t < 1) ts)
     @ (case dropWhile (\<lambda>t. frame_progress m d startTime t < 1) ts of
          [] \<Rightarrow> []
        | t # later \<Rightarrow> [frame_value m start0 T d startTime t, T])"

definition plain_counter :: counter_options where
  "plain_counter = \<lparr>co_duration = None, co_startValue = None, co_formatter = None\<rparr>"

definition hidden_element :: dom_element where
  "hidden_element = \<lparr>style_opacity = ''0'', style_transform = ''translateY(30px)'',
                      classList = [''fade-up''], textContent = Number 0\<rparr>"

definition calm_controller :: controller where
  "calm_controller = \<lparr>reducedMotion = True, respectReducedMotion = True, gsap_available = False\<rparr>"

subsection \<open>Media loading\<close>

text \<open>An image whose primary and fallback sources both fail, and one whose fallback
  loads; a network where nothing loads, and one where only \<open>good.jpg\<close> does.\<close>

definition broken_image :: media where
  "broken_image =
     \<lparr>m_id = ''hero'', m_type = Image, loaded = False, loading = False, error = False,
      src = Some ''bad.jpg'', fallbackSrc = Some ''also-bad.jpg'', video_src = None,
      has_img = False\<rparr>"

definition rescued_image :: media where
  "rescued_image = broken_image\<lparr>fallbackSrc := Some ''good.jpg''\<rparr>"

definition offline :: "string \<Rightarrow> bool" where
  "offline url = False"

definition only_good :: "string \<Rightarrow> bool" where
  "only_good url = (url = ''good.jpg'')"

text \<open>An image record that is neither loaded nor loading and has both sources.\<close>

definition retryable :: "media \<Rightarrow> bool" where
  "retryable m \<longleftrightarrow>
     m_type m = Image \<and> \<not> loaded m \<and> \<not> loading m \<and> truthy (src m) \<and> truthy (fallbackSrc m)"

section \<open>The current section (section visibility tracker)\<close>

lemma find_none_bound:
  "find (above m ss) ss = None \<Longrightarrow> t \<in> set ss \<Longrightarrow> isVisible t \<Longrightarrow> visibilityRatio t \<le> m"
proof (rule ccontr)
  assume n: "find (above m ss) ss = None" and t: "t \<in> set ss" "isVisible t"
    and c: "\<not> visibilityRatio t \<le> m"
  let ?V = "visibilityRatio ` {u \<in> set ss. isVisible u}"
  have fin: "finite ?V" by simp
  have ne: "?V \<noteq> {}" using t by auto
  obtain u where u: "u \<in> set ss" "isVisible u" "visibilityRatio u = Max ?V"
    using Max_in [OF fin ne] by auto
  have "\<forall>w \<in> set ss. isVisible w \<longrightarrow> visibilityRatio w \<le> visibilityRatio u"
    using u(3) fin by auto
  moreover have "m < visibilityRatio u"
  proof -
    have "visibilityRatio t \<le> Max ?V" using t fin by auto
    then show ?thesis using c u(3) by simp
  qed
  ultimately have "above m ss u" using u by (simp add: above_def)
  then show False using n u(1) by (auto simp: find_None_iff)
qed

lemma scan_sections_find:
  "scan_sections ss (m, c) =
     (case find (above m ss) ss of None \<Rightarrow> (m, c) | Some s \<Rightarrow> (visibilityRatio s, Some s))"
proof (induction ss arbitrary: m c)
  case Nil
  then show ?case by simp
next
  case (Cons s ss)
  show ?case
  proof (cases "isVisible s \<and> visibilityRatio s > m")
    case True
    show ?thesis
    proof (cases "find (above (visibilityRatio s) ss) ss")
      case None
      then have "\<forall>t \<in> set ss. isVisible t \<longrightarrow> visibilityRatio t \<le> visibilityRatio s"
        using find_none_bound by blast
      then have "above m (s # ss) s" using True by (simp add: above_def)
      then show ?thesis using True None Cons.IH by simp
    next
      case (Some t)
      then have t: "above (visibilityRatio s) ss t" "t \<in> set ss"
        by (auto simp: find_Some_iff)
      have ns: "\<not> above m (s # ss) s" using t by (auto simp: above_def)
      have eq: "\<And>u. u \<in> set ss \<Longrightarrow> above m (s # ss) u = above (visibilityRatio s) ss u"
        using t True by (fastforce simp: above_def)
      have "find (above m (s # ss)) ss = find (above (visibilityRatio s) ss) ss"
        by (rule find_cong) (simp_all add: eq)
      then show ?thesis using True Some ns Cons.IH by simp
    qed
  next
    case False
    have eq: "\<And>u. u \<in> set ss \<Longrightarrow> above m (s # ss) u = above m ss u"
      using False by (fastforce simp: above_def)
    have ns: "\<not> above m (s # ss) s" using False by (auto simp: above_def)
    have "find (above m (s # ss)) ss = find (above m ss) ss"
      by (rule find_cong) (simp_all add: eq)
    then show ?thesis using False ns Cons.IH by auto
  qed
qed


lemma scan_sections_spec: "snd (scan_sections ss (0, None)) = find (qualifies ss) ss"
proof -
  have "above 0 ss = qualifies ss" by (rule ext) (simp add: above_def qualifies_def)
  then show ?thesis by (simp add: scan_sections_find split: option.splits)
qed

lemma updateCurrentSection_sections: "sections (updateCurrentSection e) = sections e"
  by (simp add: updateCurrentSection_def emit_log_def split: option.splits)

lemma updateCurrentSection_current:
  "currentSection (updateCurrentSection e) =
     (case spec_current (sections e) of None \<Rightarrow> currentSection e | Some k \<Rightarrow> Some k)"
  by (simp add: updateCurrentSection_def emit_log_def scan_sections_spec spec_current_def
           split: option.splits)

lemma find_sid_view:
  assumes "list_all2 (\<lambda>s t. sid s = sid t \<and> P s = Q t) ss ts"
  shows "map_option sid (find P ss) = map_option sid (find Q ts)"
  using assms by (induction rule: list_all2_induct) auto

lemma spec_current_view:
  assumes "visibility ss = visibility ts"
  shows "spec_current ss = spec_current ts"
proof -
  have len: "length ss = length ts"
    using assms by (metis visibility_def length_map)
  have nth: "\<And>i. i < length ss \<Longrightarrow>
      sid (ss ! i) = sid (ts ! i) \<and> isVisible (ss ! i) = isVisible (ts ! i)
      \<and> visibilityRatio (ss ! i) = visibilityRatio (ts ! i)"
  proof -
    fix i assume i: "i < length ss"
    have "visibility ss ! i = visibility ts ! i" using assms by simp
    then show "sid (ss ! i) = sid (ts ! i) \<and> isVisible (ss ! i) = isVisible (ts ! i)
      \<and> visibilityRatio (ss ! i) = visibilityRatio (ts ! i)"
      using i len by (simp add: visibility_def)
  qed
  have bound: "\<And>r. (\<forall>t \<in> set ss. isVisible t \<longrightarrow> visibilityRatio t \<le> r)
                = (\<forall>t \<in> set ts. isVisible t \<longrightarrow> visibilityRatio t \<le> r)"
  proof -
    fix r :: real
    have "(\<forall>t \<in> set ss. isVisible t \<longrightarrow> visibilityRatio t \<le> r)
          = (\<forall>v \<in> set (visibility ss). fst (snd v) \<longrightarrow> snd (snd v) \<le> r)"
      by (auto simp: visibility_def)
    also have "\<dots> = (\<forall>t \<in> set ts. isVisible t \<longrightarrow> visibilityRatio t \<le> r)"
      unfolding assms by (auto simp: visibility_def)
    finally show "(\<forall>t \<in> set ss. isVisible t \<longrightarrow> visibilityRatio t \<le> r)
                = (\<forall>t \<in> set ts. isVisible t \<longrightarrow> visibilityRatio t \<le> r)" .
  qed
  have "list_all2 (\<lambda>s t. sid s = sid t \<and> qualifies ss s = qualifies ts t) ss ts"
    using len nth bound by (simp add: list_all2_conv_all_nth qualifies_def)
  then show ?thesis unfolding spec_current_def by (rule find_sid_view)
qed

lemma visibility_modify_animations:
  "visibility (map_modify k (\<lambda>s. s\<lparr>animations := g s\<rparr>) ss) = visibility ss"
  by (induction ss) (simp_all add: visibility_def)

lemma triggerSectionAnimations_visibility:
  "visibility (sections (triggerSectionAnimations k e)) = visibility (sections e)"
  by (simp add: triggerSectionAnimations_def visibility_modify_animations
           split: option.splits prod.splits)

lemma triggerSectionAnimations_current:
  "currentSection (triggerSectionAnimations k e) = currentSection e"
  by (simp add: triggerSectionAnimations_def split: option.splits prod.splits)

lemma handleSectionVisibility_visibility:
  "visibility (sections (handleSectionVisibility s en e)) = visibility (sections e)"
  by (simp add: handleSectionVisibility_def emit_log_def triggerSectionAnimations_visibility)

lemma handleSectionVisibility_current:
  "currentSection (handleSectionVisibility s en e) = currentSection e"
  by (simp add: handleSectionVisibility_def emit_log_def triggerSectionAnimations_current)

lemma handleEntry_unknown: "entry_section e en = None \<Longrightarrow> handleEntry en e = e"
  by (simp add: handleEntry_def)

lemma handleEntry_current:
  assumes "entry_section e en = Some s"
  shows "currentSection (handleEntry en e) =
           (case spec_current (sections (handleEntry en e)) of
              None \<Rightarrow> currentSection e | Some k \<Rightarrow> Some k)"
proof -
  define e1 where "e1 = e\<lparr>sections := map_modify (sid s)
                      (\<lambda>s. s\<lparr>isVisible := isIntersecting en,
                               visibilityRatio := intersectionRatio en\<rparr>) (sections e)\<rparr>"
  define e3 where "e3 = emit_log (if isIntersecting en then SectionEnter (sid s)
                             else SectionLeave (sid s)) (updateCurrentSection e1)"
  have h: "handleEntry en e = handleSectionVisibility s en e3"
    using assms by (simp add: handleEntry_def e1_def e3_def Let_def)
  have v: "visibility (sections (handleEntry en e)) = visibility (sections e1)"
    by (simp add: h handleSectionVisibility_visibility e3_def emit_log_def
          updateCurrentSection_sections)
  have c: "currentSection (handleEntry en e) = currentSection (updateCurrentSection e1)"
    by (simp add: h handleSectionVisibility_current e3_def emit_log_def)
  have "currentSection e1 = currentSection e" by (simp add: e1_def)
  then show ?thesis
    using c spec_current_view [OF v]
    by (simp add: updateCurrentSection_current split: option.splits)
qed

lemma handleEntry_tracks: "tracks_choice e \<Longrightarrow> tracks_choice (handleEntry en e)"
proof (cases "entry_section e en")
  case None
  assume "tracks_choice e"
  then show ?thesis using None by (simp add: handleEntry_unknown)
next
  case (Some s)
  show ?thesis
    using handleEntry_current [OF Some]
    by (simp add: tracks_choice_def split: option.splits)
qed

lemma handleIntersection_tracks: "tracks_choice e \<Longrightarrow> tracks_choice (handleIntersection b e)"
  by (induction b arbitrary: e) (simp_all add: handleEntry_tracks)

lemma run_batches_tracks: "tracks_choice e \<Longrightarrow> tracks_choice (run_batches bs e)"
  by (induction bs arbitrary: e) (simp_all add: handleIntersection_tracks)

lemma map_set_invisible:
  "\<not> isVisible v \<Longrightarrow> \<forall>s \<in> set m. \<not> isVisible s \<Longrightarrow> \<forall>s \<in> set (map_set v m). \<not> isVisible s"
  by (induction m) auto

lemma discover_loop_invisible:
  "\<forall>s \<in> set m. \<not> isVisible s \<Longrightarrow> \<forall>s \<in> set (discover_loop i els m). \<not> isVisible s"
proof (induction els arbitrary: i m)
  case Nil
  then show ?case by simp
next
  case (Cons el els)
  show ?case
    unfolding discover_loop.simps
    by (rule Cons.IH, rule map_set_invisible) (simp_all add: Cons.prems)
qed

lemma spec_current_invisible: "\<forall>s \<in> set ss. \<not> isVisible s \<Longrightarrow> spec_current ss = None"
  by (auto simp: spec_current_def find_None_iff qualifies_def)

lemma discoverSections_tracks: "tracks_choice (discoverSections els)"
proof -
  have "\<forall>s \<in> set (discover_loop 0 els []). \<not> isVisible s"
    by (rule discover_loop_invisible) simp
  then show ?thesis
    by (simp add: tracks_choice_def discoverSections_def spec_current_invisible)
qed

text \<open>
  C1, as the code has it. After any sequence of callback batches on a freshly discovered
  page, whenever some visible section has a positive ratio the current section is the
  first section, in iteration order, among the visible sections of greatest ratio. And
  when, after an entry has been processed, no visible section has a positive ratio, the
  current section is the one from before that entry.
\<close>

theorem current_section_is_first_max:
  "(\<forall>k. spec_current (sections (run_batches bs (discoverSections els))) = Some k \<longrightarrow>
        currentSection (run_batches bs (discoverSections els)) = Some k)
   \<and> (spec_current (sections (handleEntry en e)) = None \<longrightarrow>
        currentSection (handleEntry en e) = currentSection e)"
proof
  show "\<forall>k. spec_current (sections (run_batches bs (discoverSections els))) = Some k \<longrightarrow>
        currentSection (run_batches bs (discoverSections els)) = Some k"
    using run_batches_tracks [OF discoverSections_tracks, of bs els]
    by (auto simp: tracks_choice_def split: option.splits)
next
  show "spec_current (sections (handleEntry en e)) = None \<longrightarrow>
        currentSection (handleEntry en e) = currentSection e"
  proof (cases "entry_section e en")
    case None
    then show ?thesis by (simp add: handleEntry_unknown)
  next
    case (Some s)
    show ?thesis using handleEntry_current [OF Some] by simp
  qed
qed

text \<open>
  C1, witness: the specification's example (``problem'' at 60 percent, ``intro'' at 10
  percent), and a section that leaves the viewport while nothing else is visible.
\<close>

theorem current_section_witness:
  "spec_current (sections (run_batches
       [[observed ''intro'' True 0.1, observed ''problem'' True 0.6]]
       (discoverSections story_page))) = Some ''problem''
   \<and> currentSection (run_batches
       [[observed ''intro'' True 0.1, observed ''problem'' True 0.6]]
       (discoverSections story_page)) = Some ''problem''
   \<and> spec_current (sections (handleEntry (observed ''problem'' False 0)
       (run_batches [[observed ''problem'' True 0.6]] (discoverSections story_page)))) = None
   \<and> currentSection (handleEntry (observed ''problem'' False 0)
       (run_batches [[observed ''problem'' True 0.6]] (discoverSections story_page)))
     = currentSection (run_batches [[observed ''problem'' True 0.6]]
         (discoverSections story_page))"
proof -
  have h1: "spec_current (sections (run_batches
       [[observed ''intro'' True 0.1, observed ''problem'' True 0.6]]
       (discoverSections story_page))) = Some ''problem''"
    by code_simp
  have h2: "spec_current (sections (handleEntry (observed ''problem'' False 0)
       (run_batches [[observed ''problem'' True 0.6]] (discoverSections story_page)))) = None"
    by code_simp
  show ?thesis
    using h1 h2
      current_section_is_first_max
        [of "[[observed ''intro'' True 0.1, observed ''problem'' True 0.6]]" story_page
            "observed ''problem'' False 0"
            "run_batches [[observed ''problem'' True 0.6]] (discoverSections story_page)"]
    by simp
qed

text \<open>
  C1 as stated fails: an observer entry may report \<open>isIntersecting\<close> with ratio 0 (the
  target touches the viewport edge). Then ``intro'' is the only visible section, so it
  is the visible section of greatest ratio, but the comparison \<open>0 > 0\<close> fails and the
  current section stays \<open>null\<close>.
\<close>

theorem current_section_counterexample:
  "visibility (sections (run_batches [[observed ''intro'' True 0]] (discoverSections story_page)))
     = [(''intro'', True, 0), (''problem'', False, 0), (''solution'', False, 0)]
   \<and> stated_current (sections (run_batches [[observed ''intro'' True 0]]
        (discoverSections story_page))) = Some ''intro''
   \<and> currentSection (run_batches [[observed ''intro'' True 0]] (discoverSections story_page))
     = None"
  by code_simp

section \<open>Animation entries fire at most once\<close>

lemma trigger_loop_entries:
  "fst (trigger_loop k i as) = map (\<lambda>a. a\<lparr>triggered := True\<rparr>) as"
  by (induction as arbitrary: i) (simp_all add: case_prod_beta)

lemma trigger_loop_timers:
  "timers_set k' j (snd (trigger_loop k i as)) =
     (if k' = k \<and> i \<le> j \<and> j < i + length as \<and> \<not> triggered (as ! (j - i)) then 1 else 0)"
proof (induction as arbitrary: i)
  case Nil
  then show ?case by (simp add: timers_set_def)
next
  case (Cons a as)
  have IH: "length (filter (is_timer k' j) (snd (trigger_loop k (Suc i) as))) =
     (if k' = k \<and> Suc i \<le> j \<and> j < Suc i + length as \<and> \<not> triggered (as ! (j - Suc i))
      then 1 else 0)"
    using Cons.IH [of "Suc i"] by (simp add: timers_set_def)
  show ?case
  proof (cases "j = i")
    case True
    then show ?thesis using IH by (auto simp: timers_set_def case_prod_beta)
  next
    case False
    then have "i \<le> j \<Longrightarrow> (a # as) ! (j - i) = as ! (j - Suc i)"
      by (simp add: nth_Cons')
    then show ?thesis using IH False
      by (auto simp: timers_set_def case_prod_beta)
  qed
qed

lemma map_get_modify:
  assumes "\<And>s. sid (f s) = sid s"
  shows "map_get (map_modify k f ss) k' =
           (if k' = k then map_option f (map_get ss k) else map_get ss k')"
  using assms by (induction ss) auto

lemma timers_set_append:
  "timers_set k j (tr @ fx) = timers_set k j tr + timers_set k j fx"
  by (simp add: timers_set_def)

lemma triggerSectionAnimations_flag:
  "flag (triggerSectionAnimations k e) k' j =
     (if k' = k then (case map_get (sections e) k of None \<Rightarrow> False
                      | Some s \<Rightarrow> j < length (animations s))
      else flag e k' j)"
proof (cases "map_get (sections e) k")
  case None
  then show ?thesis by (simp add: triggerSectionAnimations_def flag_def)
next
  case (Some s)
  obtain as' fx where tl: "trigger_loop k 0 (animations s) = (as', fx)"
    by (cases "trigger_loop k 0 (animations s)")
  have as': "as' = map (\<lambda>a. a\<lparr>triggered := True\<rparr>) (animations s)"
    using trigger_loop_entries [of k 0 "animations s"] tl by simp
  have "sections (triggerSectionAnimations k e)
          = map_modify k (\<lambda>s. s\<lparr>animations := as'\<rparr>) (sections e)"
    using Some tl by (simp add: triggerSectionAnimations_def)
  then show ?thesis
    using Some as' by (auto simp: flag_def map_get_modify)
qed

lemma triggerSectionAnimations_timers:
  "timers_set k' j (trace (triggerSectionAnimations k e)) =
     timers_set k' j (trace e) +
     (case map_get (sections e) k of None \<Rightarrow> 0
      | Some s \<Rightarrow> if k' = k \<and> j < length (animations s) \<and> \<not> triggered (animations s ! j)
                  then 1 else 0)"
proof (cases "map_get (sections e) k")
  case None
  then show ?thesis by (simp add: triggerSectionAnimations_def)
next
  case (Some s)
  obtain as' fx where tl: "trigger_loop k 0 (animations s) = (as', fx)"
    by (cases "trigger_loop k 0 (animations s)")
  have fx: "timers_set k' j fx =
     (if k' = k \<and> j < length (animations s) \<and> \<not> triggered (animations s ! j) then 1 else 0)"
    using trigger_loop_timers [of k' j k 0 "animations s"] tl by simp
  have "trace (triggerSectionAnimations k e) = trace e @ fx"
    using Some tl by (simp add: triggerSectionAnimations_def)
  then show ?thesis using Some fx by (simp add: timers_set_append)
qed

lemma triggerSectionAnimations_inv:
  assumes "timers_match_flags e"
  shows "timers_match_flags (triggerSectionAnimations k e)"
  unfolding timers_match_flags_def
proof (intro allI)
  fix k' j
  have b: "timers_set k' j (trace e) = (if flag e k' j then 1 else 0)"
    using assms by (simp add: timers_match_flags_def)
  show "timers_set k' j (trace (triggerSectionAnimations k e)) =
          (if flag (triggerSectionAnimations k e) k' j then 1 else 0)"
    unfolding triggerSectionAnimations_timers triggerSectionAnimations_flag b
    by (auto simp: flag_def split: option.splits)
qed

lemma triggerSectionAnimations_mono:
  "flag e k' j \<Longrightarrow> flag (triggerSectionAnimations k e) k' j"
  unfolding triggerSectionAnimations_flag by (auto simp: flag_def split: option.splits)

lemma emit_log_inv:
  "is_timer_free ev \<Longrightarrow> timers_match_flags e \<Longrightarrow> timers_match_flags (emit_log ev e)"
  by (cases ev) (simp_all add: timers_match_flags_def emit_log_def timers_set_def flag_def
                   is_timer_free_def)

lemma emit_log_flag: "flag (emit_log ev e) k j = flag e k j"
  by (simp add: emit_log_def flag_def)

lemma updateCurrentSection_flag: "flag (updateCurrentSection e) k j = flag e k j"
  by (simp add: updateCurrentSection_def emit_log_def flag_def split: option.splits)

lemma currentSection_update_inv:
  "timers_match_flags (e\<lparr>currentSection := c\<rparr>) = timers_match_flags e"
  by (simp add: timers_match_flags_def flag_def)

lemma updateCurrentSection_inv:
  "timers_match_flags e \<Longrightarrow> timers_match_flags (updateCurrentSection e)"
  by (simp add: updateCurrentSection_def emit_log_inv currentSection_update_inv
        is_timer_free_def split: option.splits)

lemma handleSectionVisibility_inv:
  "timers_match_flags e \<Longrightarrow> timers_match_flags (handleSectionVisibility s en e)"
  by (simp add: handleSectionVisibility_def triggerSectionAnimations_inv emit_log_inv
        is_timer_free_def)

lemma handleSectionVisibility_mono:
  "flag e k j \<Longrightarrow> flag (handleSectionVisibility s en e) k j"
  by (simp add: handleSectionVisibility_def triggerSectionAnimations_mono emit_log_flag)

lemma set_visibility_flag:
  "flag (e\<lparr>sections := map_modify k' (\<lambda>s. s\<lparr>isVisible := v, visibilityRatio := r\<rparr>)
           (sections e)\<rparr>) k j = flag e k j"
  by (auto simp: flag_def map_get_modify split: option.splits)

lemma handleEntry_mono: "flag e k j \<Longrightarrow> flag (handleEntry en e) k j"
  by (simp add: handleEntry_def Let_def handleSectionVisibility_mono emit_log_flag
        updateCurrentSection_flag set_visibility_flag split: option.splits)

lemma handleEntry_inv:
  assumes "timers_match_flags e"
  shows "timers_match_flags (handleEntry en e)"
proof (cases "entry_section e en")
  case None
  then show ?thesis using assms by (simp add: handleEntry_def)
next
  case (Some s)
  define e1 where "e1 = e\<lparr>sections := map_modify (sid s)
                      (\<lambda>s. s\<lparr>isVisible := isIntersecting en,
                               visibilityRatio := intersectionRatio en\<rparr>) (sections e)\<rparr>"
  have "timers_match_flags e1"
    using assms unfolding timers_match_flags_def e1_def
    by (simp add: set_visibility_flag)
  then have "timers_match_flags (emit_log (if isIntersecting en then SectionEnter (sid s)
                             else SectionLeave (sid s)) (updateCurrentSection e1))"
    by (simp add: emit_log_inv updateCurrentSection_inv is_timer_free_def)
  then show ?thesis
    using Some by (simp add: handleEntry_def Let_def e1_def handleSectionVisibility_inv)
qed

lemma handleIntersection_mono: "flag e k j \<Longrightarrow> flag (handleIntersection b e) k j"
  by (induction b arbitrary: e) (simp_all add: handleEntry_mono)

lemma handleIntersection_inv:
  "timers_match_flags e \<Longrightarrow> timers_match_flags (handleIntersection b e)"
  by (induction b arbitrary: e) (simp_all add: handleEntry_inv)

lemma handleAnimationEntry_mono: "flag e k j \<Longrightarrow> flag (handleAnimationEntry en e) k j"
  by (simp add: handleAnimationEntry_def triggerSectionAnimations_mono split: option.splits)

lemma handleAnimationEntry_inv:
  "timers_match_flags e \<Longrightarrow> timers_match_flags (handleAnimationEntry en e)"
  by (simp add: handleAnimationEntry_def triggerSectionAnimations_inv split: option.splits)

lemma handleAnimationTrigger_mono: "flag e k j \<Longrightarrow> flag (handleAnimationTrigger b e) k j"
  by (induction b arbitrary: e) (simp_all add: handleAnimationEntry_mono)

lemma handleAnimationTrigger_inv:
  "timers_match_flags e \<Longrightarrow> timers_match_flags (handleAnimationTrigger b e)"
  by (induction b arbitrary: e) (simp_all add: handleAnimationEntry_inv)

lemma start_loop_mono: "flag e k j \<Longrightarrow> flag (start_loop inView ks e) k j"
  by (induction ks arbitrary: e) (simp_all add: triggerSectionAnimations_mono)

lemma start_loop_inv:
  "timers_match_flags e \<Longrightarrow> timers_match_flags (start_loop inView ks e)"
  by (induction ks arbitrary: e) (simp_all add: triggerSectionAnimations_inv)

lemma engine_step_mono: "flag e k j \<Longrightarrow> flag (engine_step ev e) k j"
  by (cases ev)
     (simp_all add: handleIntersection_mono handleAnimationTrigger_mono start_def start_loop_mono)

lemma engine_step_inv: "timers_match_flags e \<Longrightarrow> timers_match_flags (engine_step ev e)"
  by (cases ev)
     (simp_all add: handleIntersection_inv handleAnimationTrigger_inv start_def start_loop_inv)

lemma run_events_inv: "timers_match_flags e \<Longrightarrow> timers_match_flags (run_events evs e)"
  by (induction evs arbitrary: e) (simp_all add: engine_step_inv)

lemma discover_anims_untriggered: "\<forall>a \<in> set (discover_anims i els). \<not> triggered a"
  by (induction els arbitrary: i) simp_all

lemma map_get_in: "map_get ss k = Some s \<Longrightarrow> s \<in> set ss"
  by (induction ss) (auto split: if_splits)

lemma map_set_untriggered:
  "\<forall>a \<in> set (animations v). \<not> triggered a \<Longrightarrow>
   \<forall>s \<in> set m. \<forall>a \<in> set (animations s). \<not> triggered a \<Longrightarrow>
   \<forall>s \<in> set (map_set v m). \<forall>a \<in> set (animations s). \<not> triggered a"
  by (induction m) auto

lemma discover_loop_untriggered:
  "\<forall>s \<in> set m. \<forall>a \<in> set (animations s). \<not> triggered a \<Longrightarrow>
   \<forall>s \<in> set (discover_loop i els m). \<forall>a \<in> set (animations s). \<not> triggered a"
proof (induction els arbitrary: i m)
  case Nil
  then show ?case by simp
next
  case (Cons el els)
  show ?case
    unfolding discover_loop.simps
    by (rule Cons.IH, rule map_set_untriggered)
       (simp_all add: Cons.prems discoverSectionAnimations_def discover_anims_untriggered)
qed

lemma discoverSections_flag: "\<not> flag (discoverSections els) k j"
proof
  assume f: "flag (discoverSections els) k j"
  then obtain s where s: "map_get (discover_loop 0 els []) k = Some s"
      "j < length (animations s)" "triggered (animations s ! j)"
    by (auto simp: flag_def discoverSections_def split: option.splits)
  have "\<forall>s \<in> set (discover_loop 0 els []). \<forall>a \<in> set (animations s). \<not> triggered a"
    by (rule discover_loop_untriggered) simp
  then have "\<not> triggered (animations s ! j)"
    using map_get_in [OF s(1)] s(2) by (meson nth_mem)
  then show False using s(3) by simp
qed

lemma discoverSections_inv: "timers_match_flags (discoverSections els)"
  unfolding timers_match_flags_def
  by (simp add: discoverSections_flag) (simp add: discoverSections_def timers_set_def)

text \<open>
  C2. After any sequence of section-observer batches, animation-observer batches and
  calls of \<open>start\<close> on a freshly discovered page, the number of timers ever set for an
  Animation Entry is 1 if its \<open>triggered\<close> flag is set and 0 if it is not: a timer is
  set only for an entry whose flag is clear, and the flag is set in the step that sets
  the timer. And no step clears a flag that is set. So the flag goes from false to true
  at most once and the entry's animation is scheduled at most once, however often the
  callbacks fire again.
\<close>

theorem triggered_at_most_once:
  "timers_set k j (trace (run_events evs (discoverSections els)))
     = (if flag (run_events evs (discoverSections els)) k j then 1 else 0)
   \<and> (flag e k j \<longrightarrow> flag (engine_step ev e) k j)"
  using run_events_inv [OF discoverSections_inv, of evs els]
  by (simp add: timers_match_flags_def engine_step_mono)

text \<open>
  C2, witness: the section enters the animation observer, then the section observer
  reports it twice and \<open>start\<close> runs; the second entry has still exactly one timer.
\<close>

theorem triggered_at_most_once_witness:
  "flag (run_events [AnimationBatch [observed ''intro'' True 0.3],
                     SectionBatch [observed ''intro'' True 0.5, observed ''intro'' True 1],
                     Start (\<lambda>k. True)] (discoverSections animated_page)) ''intro'' 1
   \<and> timers_set ''intro'' 1
        (trace (run_events [AnimationBatch [observed ''intro'' True 0.3],
                     SectionBatch [observed ''intro'' True 0.5, observed ''intro'' True 1],
                     Start (\<lambda>k. True)] (discoverSections animated_page))) = 1
   \<and> flag (engine_step (AnimationBatch [observed ''intro'' True 0.3])
             (discoverSections animated_page)) ''intro'' 1
   \<and> flag (engine_step (SectionBatch [observed ''intro'' False 0])
             (engine_step (AnimationBatch [observed ''intro'' True 0.3])
                (discoverSections animated_page))) ''intro'' 1"
proof -
  have h1: "flag (run_events [AnimationBatch [observed ''intro'' True 0.3],
                     SectionBatch [observed ''intro'' True 0.5, observed ''intro'' True 1],
                     Start (\<lambda>k. True)] (discoverSections animated_page)) ''intro'' 1"
    by code_simp
  have h2: "flag (engine_step (AnimationBatch [observed ''intro'' True 0.3])
             (discoverSections animated_page)) ''intro'' 1"
    by code_simp
  show ?thesis
    using h1 h2
      triggered_at_most_once
        [of "''intro''" 1
            "[AnimationBatch [observed ''intro'' True 0.3],
              SectionBatch [observed ''intro'' True 0.5, observed ''intro'' True 1],
              Start (\<lambda>k. True)]"
            animated_page
            "engine_step (AnimationBatch [observed ''intro'' True 0.3])
               (discoverSections animated_page)"
            "SectionBatch [observed ''intro'' False 0]"]
    by simp
qed

section \<open>Navigation: guard, unknown targets, history\<close>

lemma navigateToSection_busy: "isNavigating st \<Longrightarrow> navigateToSection k u now st = (st, [])"
  by (simp add: navigateToSection_def)

lemma settle_prevented: "settle st (prevented r) = settle st r"
  by (simp add: settle_def prevented_def split: sum.splits prod.splits)

lemma settle_navigate_busy:
  "isNavigating st \<Longrightarrow> settle st (Inr (navigateToSection k u now st)) = st"
  by (simp add: settle_def navigateToSection_busy)

lemma settle_Inr: "settle st (Inr p) = fst p"
  by (simp add: settle_def case_prod_beta)

lemma settle_same: "settle st (Inr (st, fx)) = st" "settle st (Inl x) = st"
  by (simp_all add: settle_def)

lemma navigateNext_busy: "isNavigating st \<Longrightarrow> settle st (navigateNext now st) = st"
  by (simp add: navigateNext_def settle_navigate_busy settle_same split: option.splits)

lemma navigatePrevious_busy: "isNavigating st \<Longrightarrow> settle st (navigatePrevious now st) = st"
  by (simp add: navigatePrevious_def settle_navigate_busy settle_same split: option.splits)

lemma handleNavClick_busy: "isNavigating st \<Longrightarrow> settle st (Inr (handleNavClick k now st)) = st"
  by (simp add: handleNavClick_def navigateToSection_busy settle_def)

lemma handleKeydown_busy:
  assumes "isNavigating st"
  shows "settle st (handleKeydown kev now st) = st"
proof -
  have n: "\<And>k. settle st (prevented (Inr (navigateToSection k True now st))) = st"
    using assms by (simp add: settle_prevented settle_navigate_busy)
  show ?thesis
    unfolding handleKeydown_def
    by (simp only: n settle_prevented settle_navigate_busy [OF assms] navigateNext_busy [OF assms]
          navigatePrevious_busy [OF assms] settle_same
          if_distrib [of "settle st"] option.case_distrib [of "settle st"]
          if_cancel option.case_eq_if)
qed


lemma request_dropped:
  assumes "isNavigating st" "is_request ev"
  shows "nav_step (now, ev) st = st"
  using assms
  by (cases ev)
     (simp_all add: nav_step_def nav_handle_def settle_navigate_busy navigateNext_busy
        navigatePrevious_busy handleNavClick_busy handleKeydown_busy)

lemma busy_kept:
  assumes "isNavigating st" "ev \<noteq> ScrollDone"
  shows "isNavigating (nav_step (now, ev) st)
         \<and> in_flight (nav_step (now, ev) st) = in_flight st
         \<and> navigationHistory (nav_step (now, ev) st) = navigationHistory st"
proof (cases "is_request ev")
  case True
  then show ?thesis using assms(1) by (simp add: request_dropped)
next
  case False
  then show ?thesis using assms
    by (cases ev)
       (simp_all add: nav_step_def nav_handle_def handleHashChange_def handleFocusChange_def
          navigateToSection_busy settle_def split: option.splits)
qed

lemma scroll_done_idle: "\<not> isNavigating (nav_step (now, ScrollDone) st) \<or> in_flight st = None"
  by (simp add: nav_step_def nav_handle_def scroll_done_def Let_def settle_def split: option.splits)

lemma navigateToSection_consistent:
  "guard_consistent st \<Longrightarrow> guard_consistent (fst (navigateToSection k u now st))"
  by (simp add: navigateToSection_def guard_consistent_def split: option.splits)

lemma settle_navigate_consistent:
  "guard_consistent st \<Longrightarrow> guard_consistent (settle st (Inr (navigateToSection k u now st)))"
  by (simp add: settle_Inr navigateToSection_consistent)

lemma navigateNext_consistent:
  "guard_consistent st \<Longrightarrow> guard_consistent (settle st (navigateNext now st))"
  by (simp add: navigateNext_def settle_navigate_consistent settle_same split: option.splits)

lemma navigatePrevious_consistent:
  "guard_consistent st \<Longrightarrow> guard_consistent (settle st (navigatePrevious now st))"
  by (simp add: navigatePrevious_def settle_navigate_consistent settle_same split: option.splits)

lemma handleKeydown_consistent:
  assumes "guard_consistent st"
  shows "guard_consistent (settle st (handleKeydown kev now st))"
  unfolding handleKeydown_def
  by (simp only: settle_prevented settle_navigate_consistent [OF assms]
        navigateNext_consistent [OF assms] navigatePrevious_consistent [OF assms] settle_same
        if_distrib [of "settle st"] option.case_distrib [of "settle st"]
        if_distrib [of guard_consistent] assms
        if_cancel option.case_eq_if)

lemma nav_step_consistent:
  assumes "guard_consistent st"
  shows "guard_consistent (nav_step tev st)"
proof (cases "snd tev")
  case (NavigateTo k u)
  then show ?thesis using assms by (simp add: nav_step_def nav_handle_def settle_navigate_consistent)
next
  case NavigateNext
  then show ?thesis using assms by (simp add: nav_step_def nav_handle_def navigateNext_consistent)
next
  case NavigatePrevious
  then show ?thesis using assms by (simp add: nav_step_def nav_handle_def navigatePrevious_consistent)
next
  case (HashChange h)
  have "guard_consistent (st\<lparr>location_hash := h\<rparr>)"
    using assms by (simp add: guard_consistent_def)
  then have "guard_consistent (fst (handleHashChange (fst tev) (st\<lparr>location_hash := h\<rparr>)))"
    by (simp add: handleHashChange_def navigateToSection_consistent)
  then show ?thesis using HashChange
    by (simp add: nav_step_def nav_handle_def settle_Inr)
next
  case (NavClick k)
  have "guard_consistent (fst (handleNavClick k (fst tev) st))"
    using assms navigateToSection_consistent [of st k True "fst tev"]
    by (simp add: handleNavClick_def case_prod_beta)
  then show ?thesis using NavClick
    by (simp add: nav_step_def nav_handle_def settle_Inr)
next
  case (Keydown kev)
  then show ?thesis using assms by (simp add: nav_step_def nav_handle_def handleKeydown_consistent)
next
  case (FocusChange k)
  then show ?thesis using assms
    by (simp add: nav_step_def nav_handle_def settle_def handleFocusChange_def
          guard_consistent_def split: option.splits)
next
  case ScrollDone
  then show ?thesis using assms
    by (simp add: nav_step_def nav_handle_def settle_def scroll_done_def Let_def
          guard_consistent_def split: option.splits)
qed

lemma nav_run_consistent: "guard_consistent st \<Longrightarrow> guard_consistent (nav_run tevs st)"
  by (induction tevs arbitrary: st) (simp_all add: nav_step_consistent)

lemma nav_init_consistent: "guard_consistent (nav_init els)"
  by (simp add: guard_consistent_def nav_init_def)

text \<open>
  C4. While a navigation is in flight, every request (a call of one of the three
  operations, a link click, a key press) leaves the whole controller state as it is:
  nothing is queued, and the pending destination, the history and the URL fragment stay.
  Any event other than the end of the scroll keeps the controller navigating, with the
  same pending destination and history. On every run from the initial state the guard
  flag is set exactly when a scroll callback is pending, and that callback clears it.
\<close>

theorem navigation_state_machine:
  "(isNavigating st \<and> is_request ev \<longrightarrow> nav_step (now, ev) st = st)
   \<and> (isNavigating st \<and> ev \<noteq> ScrollDone \<longrightarrow>
        isNavigating (nav_step (now, ev) st)
        \<and> in_flight (nav_step (now, ev) st) = in_flight st
        \<and> navigationHistory (nav_step (now, ev) st) = navigationHistory st)
   \<and> (isNavigating (nav_run tevs (nav_init els))
        \<longleftrightarrow> in_flight (nav_run tevs (nav_init els)) \<noteq> None)
   \<and> (in_flight st \<noteq> None \<longrightarrow> \<not> isNavigating (nav_step (now, ScrollDone) st))"
  using request_dropped [of st ev now] busy_kept [of st ev now]
    nav_run_consistent [OF nav_init_consistent, of tevs els] scroll_done_idle [of now st]
  by (auto simp: guard_consistent_def)

text \<open>C4, witness: a request for ``intro'' while the navigation to ``problem'' is in flight.\<close>

theorem navigation_state_machine_witness:
  "isNavigating (nav_step (0, NavigateTo ''problem'' True) (nav_init two_pages))
   \<and> is_request (NavigateTo ''intro'' True)
   \<and> NavigateTo ''intro'' True \<noteq> ScrollDone
   \<and> nav_step (1, NavigateTo ''intro'' True)
        (nav_step (0, NavigateTo ''problem'' True) (nav_init two_pages))
      = nav_step (0, NavigateTo ''problem'' True) (nav_init two_pages)
   \<and> in_flight (nav_step (0, NavigateTo ''problem'' True) (nav_init two_pages)) \<noteq> None
   \<and> \<not> isNavigating (nav_step (2, ScrollDone)
          (nav_step (0, NavigateTo ''problem'' True) (nav_init two_pages)))
   \<and> isNavigating (nav_run [(0, NavigateTo ''problem'' True)] (nav_init two_pages))"
proof -
  have h1: "isNavigating (nav_step (0, NavigateTo ''problem'' True) (nav_init two_pages))"
    by code_simp
  have h2: "in_flight (nav_step (0, NavigateTo ''problem'' True) (nav_init two_pages)) \<noteq> None"
    by code_simp
  have h3: "isNavigating (nav_run [(0, NavigateTo ''problem'' True)] (nav_init two_pages))"
    by code_simp
  show ?thesis
    using h1 h2 h3
      navigation_state_machine
        [of "nav_step (0, NavigateTo ''problem'' True) (nav_init two_pages)"
            "NavigateTo ''intro'' True" _ "[(0, NavigateTo ''problem'' True)]" two_pages]
    by simp
qed

text \<open>
  C6. For an id that no discovered section has, \<open>navigateToSection\<close> returns the state it
  was given (history, index, URL fragment and guard flag included); when idle it logs one
  warning and does nothing else, and it has no way to throw.
\<close>

theorem unknown_section_is_noop:
  "(\<forall>s \<in> set (nav_sections st). ns_id s \<noteq> k) \<longrightarrow>
     navigateToSection k u now st
       = (st, if isNavigating st then [] else [Warn (''Section '' @ k @ '' not found'')])"
proof
  assume "\<forall>s \<in> set (nav_sections st). ns_id s \<noteq> k"
  then have "find_section (nav_sections st) k = None"
    by (simp add: find_section_def find_None_iff)
  then show "navigateToSection k u now st
       = (st, if isNavigating st then [] else [Warn (''Section '' @ k @ '' not found'')])"
    by (simp add: navigateToSection_def)
qed

text \<open>C6, witness: ``missing'' on the two-section page.\<close>

theorem unknown_section_is_noop_witness:
  "''missing'' \<notin> set (map ns_id (nav_sections (nav_init two_pages)))
   \<and> navigateToSection ''missing'' True 7 (nav_init two_pages)
       = (nav_init two_pages, [Warn ''Section missing not found''])
   \<and> \<not> isNavigating (nav_init two_pages)"
proof -
  have h: "\<forall>s \<in> set (nav_sections (nav_init two_pages)). ns_id s \<noteq> ''missing''"
    by code_simp
  have i: "\<not> isNavigating (nav_init two_pages)" by (simp add: nav_init_def)
  have m: "''missing'' \<notin> set (map ns_id (nav_sections (nav_init two_pages)))"
    using h by auto
  show ?thesis
    using h i m unknown_section_is_noop [of "nav_init two_pages" "''missing''" True 7]
    by simp
qed

lemma navigateToSection_history:
  assumes "\<not> isNavigating st" "find_section (nav_sections st) k = Some s"
  shows "navigationHistory (fst (navigateToSection k u now st))
           = navigationHistory st @
             [\<lparr>h_from = currentSectionIndex st, h_to = ns_index s, h_timestamp = now\<rparr>]"
  using assms by (simp add: navigateToSection_def)

lemma navigateToSection_grows:
  "grows st (fst (navigateToSection k u now st))"
  by (simp add: navigateToSection_def grows_def split: option.splits)

lemma grows_refl: "grows st st"
  by (simp add: grows_def)

lemma settle_navigate_grows: "grows st (settle st (Inr (navigateToSection k u now st)))"
  by (simp add: settle_Inr navigateToSection_grows)

lemma navigateNext_grows: "grows st (settle st (navigateNext now st))"
  by (simp add: navigateNext_def settle_navigate_grows settle_same grows_refl
        split: option.splits)

lemma navigatePrevious_grows: "grows st (settle st (navigatePrevious now st))"
  by (simp add: navigatePrevious_def settle_navigate_grows settle_same grows_refl
        split: option.splits)

lemma handleKeydown_grows: "grows st (settle st (handleKeydown kev now st))"
  unfolding handleKeydown_def
  by (simp only: settle_prevented settle_navigate_grows navigateNext_grows
        navigatePrevious_grows settle_same grows_refl
        if_distrib [of "settle st"] option.case_distrib [of "settle st"]
        if_distrib [of "grows st"]
        if_cancel option.case_eq_if)

lemma nav_step_grows: "grows st (nav_step tev st)"
proof (cases "snd tev")
  case (NavigateTo k u)
  then show ?thesis by (simp add: nav_step_def nav_handle_def settle_navigate_grows)
next
  case NavigateNext
  then show ?thesis by (simp add: nav_step_def nav_handle_def navigateNext_grows)
next
  case NavigatePrevious
  then show ?thesis by (simp add: nav_step_def nav_handle_def navigatePrevious_grows)
next
  case (HashChange h)
  have "grows (st\<lparr>location_hash := h\<rparr>)
          (fst (handleHashChange (fst tev) (st\<lparr>location_hash := h\<rparr>)))"
    by (simp add: handleHashChange_def navigateToSection_grows grows_refl)
  then show ?thesis using HashChange
    by (simp add: nav_step_def nav_handle_def settle_Inr grows_def)
next
  case (NavClick k)
  have "grows st (fst (handleNavClick k (fst tev) st))"
    using navigateToSection_grows [of st k True "fst tev"]
    by (simp add: handleNavClick_def case_prod_beta grows_refl)
  then show ?thesis using NavClick
    by (simp add: nav_step_def nav_handle_def settle_Inr)
next
  case (Keydown kev)
  then show ?thesis by (simp add: nav_step_def nav_handle_def handleKeydown_grows)
next
  case (FocusChange k)
  then show ?thesis
    by (simp add: nav_step_def nav_handle_def settle_def handleFocusChange_def
          grows_def split: option.splits)
next
  case ScrollDone
  then show ?thesis
    by (simp add: nav_step_def nav_handle_def settle_def scroll_done_def Let_def
          grows_def split: option.splits)
qed

lemma handleFocus_bounded: "length fh \<le> 50 \<Longrightarrow> length (handleFocus x fh) \<le> 50"
  by (simp add: handleFocus_def Let_def)

lemma handleFocus_full: "length fh = 50 \<Longrightarrow> handleFocus x fh = tl fh @ [x]"
  by (cases fh) (simp_all add: handleFocus_def Let_def)

text \<open>
  C9, as the code has it. An accepted navigation appends exactly one entry to the
  navigation history and no event removes one: the history after an event starts with the
  history before it. The 50-entry window is the focus history's: \<open>handleFocus\<close> keeps
  its length at most 50 and, when it was 50, drops the oldest entry.
\<close>

theorem history_bounds:
  "(\<not> isNavigating st \<and> find_section (nav_sections st) k = Some s \<longrightarrow>
      navigationHistory (fst (navigateToSection k u now st))
        = navigationHistory st @
          [\<lparr>h_from = currentSectionIndex st, h_to = ns_index s, h_timestamp = now\<rparr>])
   \<and> take (length (navigationHistory st)) (navigationHistory (nav_step tev st))
        = navigationHistory st
   \<and> (length fh \<le> 50 \<longrightarrow> length (handleFocus x fh) \<le> 50)
   \<and> (length fh = 50 \<longrightarrow> handleFocus x fh = tl fh @ [x])"
  using navigateToSection_history [of st k s u now] nav_step_grows [of st tev]
    handleFocus_bounded [of fh x] handleFocus_full [of fh x]
  by (simp add: grows_def)

text \<open>C9, witness: one navigation on the two-section page, and a full focus history.\<close>

theorem history_bounds_witness:
  "\<not> isNavigating (nav_init two_pages)
   \<and> find_section (nav_sections (nav_init two_pages)) ''problem''
       = Some \<lparr>ns_id = ''problem'', ns_index = 1, ns_offsetTop = 800\<rparr>
   \<and> navigationHistory (fst (navigateToSection ''problem'' True 7 (nav_init two_pages)))
       = [\<lparr>h_from = 0, h_to = 1, h_timestamp = 7\<rparr>]
   \<and> length (replicate 50 (0::nat)) = 50
   \<and> length (handleFocus 1 (replicate 50 (0::nat))) \<le> 50
   \<and> handleFocus 1 (replicate 50 (0::nat)) = tl (replicate 50 0) @ [1]"
proof -
  have h1: "\<not> isNavigating (nav_init two_pages)" by (simp add: nav_init_def)
  have h2: "find_section (nav_sections (nav_init two_pages)) ''problem''
       = Some \<lparr>ns_id = ''problem'', ns_index = 1, ns_offsetTop = 800\<rparr>"
    by code_simp
  have h3: "navigationHistory (nav_init two_pages) = []"
     "currentSectionIndex (nav_init two_pages) = 0"
    by (simp_all add: nav_init_def)
  show ?thesis
    using h1 h2 h3
      history_bounds [of "nav_init two_pages" "''problem''"
        "\<lparr>ns_id = ''problem'', ns_index = 1, ns_offsetTop = 800\<rparr>" True 7 _
        "replicate 50 (0::nat)" 1]
    by simp
qed

text \<open>C9 as stated fails: 51 completed navigations leave 51 entries in the history.\<close>

theorem history_unbounded_counterexample:
  "length (navigationHistory (nav_run (round_trips 51) (nav_init two_pages))) = 51"
  by code_simp

section \<open>Scroll fraction\<close>

lemma min_max_clamp: "min (max x 0) 1 = clamp01 x"
  by (simp add: clamp01_def min_def max_def)

lemma spec_fraction_range: "0 \<le> spec_fraction v \<and> spec_fraction v \<le> 1"
  by (simp add: spec_fraction_def clamp01_def)

lemma calculate_unsmoothed: "calculateScrollProgress False v p = spec_fraction v"
  by (simp add: calculateScrollProgress_def Let_def spec_fraction_def min_max_clamp)

lemma calculate_smoothed:
  "calculateScrollProgress True v p =
     (if de_scrollHeight v \<le> innerHeight v then 0 else p + (spec_fraction v - p) / 10)"
  by (simp add: calculateScrollProgress_def Let_def spec_fraction_def min_max_clamp lerp_def)

lemma calculate_range:
  assumes "0 \<le> p" "p \<le> 1"
  shows "0 \<le> calculateScrollProgress sm v p \<and> calculateScrollProgress sm v p \<le> 1"
proof (cases sm)
  case True
  have "0 \<le> p + (spec_fraction v - p) / 10 \<and> p + (spec_fraction v - p) / 10 \<le> 1"
    using assms spec_fraction_range [of v] by (simp add: field_simps)
  then show ?thesis using True by (simp add: calculate_smoothed)
next
  case False
  then show ?thesis using spec_fraction_range [of v] by (simp add: calculate_unsmoothed)
qed

lemma calculate_degenerate:
  "de_scrollHeight v \<le> innerHeight v \<Longrightarrow> calculateScrollProgress sm v p = 0"
  by (simp add: calculateScrollProgress_def)

text \<open>
  C5, as the code has it, for the progress indicator's \<open>calculateScrollProgress\<close>. With
  smoothing off the stored fraction is clamp(scrollTop / (documentHeight -
  viewportHeight), 0, 1). With smoothing on it moves one tenth of the way from its old
  value to that clamped value. Either way it stays in [0, 1] when it started there, and
  it is 0 when the document is not taller than the viewport.
\<close>

theorem scroll_fraction_clamped:
  "calculateScrollProgress False v p = spec_fraction v
   \<and> calculateScrollProgress True v p =
       (if de_scrollHeight v \<le> innerHeight v then 0 else p + (spec_fraction v - p) / 10)
   \<and> (0 \<le> p \<and> p \<le> 1 \<longrightarrow>
        0 \<le> calculateScrollProgress sm v p \<and> calculateScrollProgress sm v p \<le> 1)
   \<and> (de_scrollHeight v \<le> innerHeight v \<longrightarrow> calculateScrollProgress sm v p = 0)"
  using calculate_range [of p sm v]
  by (simp add: calculate_unsmoothed calculate_smoothed calculate_degenerate)

text \<open>
  C5 as stated fails. In the middle of a long page the clamped quotient is 1/2, but the
  progress indicator, smoothing from 0, stores 1/20. The engine's \<open>updateProgress\<close> has
  neither the guard nor the lower clamp: on a page exactly as tall as the viewport it
  stores \<open>NaN\<close> (0 / 0), and on a page pulled 50 pixels above its top it stores -1/20.
\<close>

theorem scroll_fraction_counterexample:
  "spec_fraction mid_page = 1 / 2
   \<and> calculateScrollProgress True mid_page 0 = 1 / 20
   \<and> updateProgress short_page = NaN
   \<and> updateProgress bounced_page = Finite (- (1 / 20))"
  by (simp add: spec_fraction_def clamp01_def mid_page_def short_page_def bounced_page_def
        calculateScrollProgress_def lerp_def updateProgress_def js_div_def scrollTop_def)

text \<open>C5, witness: the middle of the long page, and the page as tall as the viewport.\<close>

theorem scroll_fraction_witness:
  "(0::real) \<le> 1 / 2 \<and> (1 / 2 :: real) \<le> 1
   \<and> calculateScrollProgress False mid_page (1 / 2) = 1 / 2
   \<and> 0 \<le> calculateScrollProgress True mid_page (1 / 2)
   \<and> calculateScrollProgress True mid_page (1 / 2) \<le> 1
   \<and> de_scrollHeight short_page \<le> innerHeight short_page
   \<and> calculateScrollProgress True short_page (1 / 2) = 0"
proof -
  have h: "de_scrollHeight short_page \<le> innerHeight short_page"
    by (simp add: short_page_def)
  have f: "spec_fraction mid_page = 1 / 2"
    by (simp add: spec_fraction_def clamp01_def mid_page_def scrollTop_def)
  show ?thesis
    using h f scroll_fraction_clamped [of mid_page "1 / 2" True]
      scroll_fraction_clamped [of short_page "1 / 2" True]
    by simp
qed

section \<open>Counter animation\<close>

lemma counter_frames_writes:
  "fst (counter_frames m s T d st ts) = expected_writes m s T d st ts"
proof (induction ts)
  case Nil
  then show ?case by (simp add: expected_writes_def)
next
  case (Cons t ts)
  have IH: "fst (counter_frames m s T d st ts) = expected_writes m s T d st ts"
    using Cons by simp
  show ?case
  proof (cases "frame_progress m d st t < 1")
    case True
    then show ?thesis using IH
      by (simp add: Let_def case_prod_beta expected_writes_def frame_progress_def
            frame_value_def)
  next
    case False
    then show ?thesis
      by (simp add: Let_def case_prod_beta expected_writes_def frame_progress_def
            frame_value_def)
  qed
qed

lemma counter_frames_ends:
  "snd (counter_frames m s T d st ts) \<longleftrightarrow> (\<exists>t \<in> set ts. frame_progress m d st t = 1)"
proof (induction ts)
  case Nil
  then show ?case by simp
next
  case (Cons t ts)
  have r: "frame_progress m d st t < 1 \<longleftrightarrow> frame_progress m d st t \<noteq> 1"
    by (auto simp: frame_progress_def min_def)
  show ?case
  proof (cases "frame_progress m d st t < 1")
    case True
    then show ?thesis using Cons r
      by (simp add: Let_def case_prod_beta frame_progress_def)
  next
    case False
    then show ?thesis using r
      by (simp add: Let_def case_prod_beta frame_progress_def)
  qed
qed

lemma counter_frames_last:
  "snd (counter_frames m s T d st ts) \<Longrightarrow>
     fst (counter_frames m s T d st ts) \<noteq> [] \<and> last (fst (counter_frames m s T d st ts)) = T"
  by (induction ts) (auto simp: Let_def case_prod_beta split: if_splits)

lemma last_map_nonempty: "xs \<noteq> [] \<Longrightarrow> last (map f xs) = f (last xs)"
  by (simp add: last_map)

text \<open>
  Without rounding, and on a frame that is not stamped before the start, the frame value
  is the formula with t clamped to [0, 1].
\<close>

lemma exact_frame_value:
  assumes "0 < d" "st \<le> t"
  shows "frame_value exact_math s T d st t = spec_counter_value s T d st t"
proof -
  have "0 \<le> (t - st) / d" using assms by simp
  then have "min ((t - st) / d) 1 = clamp01 ((t - st) / d)"
    by (auto simp: clamp01_def min_def)
  then show ?thesis
    by (simp add: frame_value_def frame_progress_def exact_math_def spec_counter_value_def
          ease_out_cubic_def)
qed

text \<open>
  C7, as the code has it, for the engine's \<open>animateCounter\<close> and the controller's
  \<open>animateCounterCSS\<close>, in whatever arithmetic the runtime has. Each frame shows
  floor(start + (T - start) * (1 - (1 - t)^3)) as the runtime evaluates it, where t is
  elapsed / duration clamped from above only (\<open>Math.min\<close> with 1). The animation ends
  on the first frame whose t has reached 1, and whenever it ends the last thing written
  is the target itself, whatever the time stamps and the rounding were.
\<close>

theorem counter_frames_then_target:
  "fst (animateCounter m T startTime frames)
     = map Number (expected_writes m 0 (real_of_int T) 2000 startTime frames)
   \<and> (snd (animateCounter m T startTime frames)
        \<longleftrightarrow> (\<exists>t \<in> set frames. frame_progress m 2000 startTime t = 1))
   \<and> (snd (animateCounter m T startTime frames) \<longrightarrow>
        last (fst (animateCounter m T startTime frames)) = Number (real_of_int T))
   \<and> fst (animateCounterCSS m target opts startTime frames)
       = map (render opts)
           (expected_writes m (num_or (co_startValue opts) 0) target
              (fl_mul m (num_or (co_duration opts) 2) 1000) startTime frames)
   \<and> (snd (animateCounterCSS m target opts startTime frames)
        \<longleftrightarrow> (\<exists>t \<in> set frames.
               frame_progress m (fl_mul m (num_or (co_duration opts) 2) 1000) startTime t = 1))
   \<and> (snd (animateCounterCSS m target opts startTime frames) \<longrightarrow>
        last (fst (animateCounterCSS m target opts startTime frames)) = render opts target)"
proof (intro conjI impI)
  show "fst (animateCounter m T startTime frames)
     = map Number (expected_writes m 0 (real_of_int T) 2000 startTime frames)"
    by (simp add: animateCounter_def case_prod_beta counter_frames_writes)
next
  show "snd (animateCounter m T startTime frames)
        \<longleftrightarrow> (\<exists>t \<in> set frames. frame_progress m 2000 startTime t = 1)"
    by (simp add: animateCounter_def case_prod_beta counter_frames_ends)
next
  assume "snd (animateCounter m T startTime frames)"
  then have e: "snd (counter_frames m 0 (real_of_int T) 2000 startTime frames)"
    by (simp add: animateCounter_def case_prod_beta)
  show "last (fst (animateCounter m T startTime frames)) = Number (real_of_int T)"
    using counter_frames_last [OF e]
    by (simp add: animateCounter_def case_prod_beta last_map_nonempty)
next
  show "fst (animateCounterCSS m target opts startTime frames)
       = map (render opts)
           (expected_writes m (num_or (co_startValue opts) 0) target
              (fl_mul m (num_or (co_duration opts) 2) 1000) startTime frames)"
    by (simp add: animateCounterCSS_def case_prod_beta counter_frames_writes)
next
  show "snd (animateCounterCSS m target opts startTime frames)
        \<longleftrightarrow> (\<exists>t \<in> set frames.
               frame_progress m (fl_mul m (num_or (co_duration opts) 2) 1000) startTime t = 1)"
    by (simp add: animateCounterCSS_def case_prod_beta counter_frames_ends)
next
  assume "snd (animateCounterCSS m target opts startTime frames)"
  then have e: "snd (counter_frames m (num_or (co_startValue opts) 0) target
                  (fl_mul m (num_or (co_duration opts) 2) 1000) startTime frames)"
    by (simp add: animateCounterCSS_def case_prod_beta)
  show "last (fst (animateCounterCSS m target opts startTime frames)) = render opts target"
    using counter_frames_last [OF e]
    by (simp add: animateCounterCSS_def case_prod_beta last_map_nonempty)
qed

text \<open>
  C7, witness: a counter to 1000 started at 0 ms with frames at 1000 and 2000 ms; every
  intermediate result is a double, so no rounding takes place.
\<close>

theorem counter_frames_then_target_witness:
  "snd (animateCounter exact_math 1000 0 [1000, 2000])
   \<and> fst (animateCounter exact_math 1000 0 [1000, 2000])
       = [Number 875, Number 1000, Number 1000]
   \<and> last (fst (animateCounter exact_math 1000 0 [1000, 2000])) = Number 1000
   \<and> snd (animateCounterCSS exact_math 1000 plain_counter 0 [1000, 2000])
   \<and> last (fst (animateCounterCSS exact_math 1000 plain_counter 0 [1000, 2000])) = Number 1000"
proof -
  have h1: "snd (animateCounter exact_math 1000 0 [1000, 2000])"
    by (simp add: animateCounter_def exact_math_def)
  have h2: "snd (animateCounterCSS exact_math 1000 plain_counter 0 [1000, 2000])"
    by (simp add: animateCounterCSS_def exact_math_def plain_counter_def num_or_def)
  have h3: "expected_writes exact_math 0 (real_of_int 1000) 2000 0 [1000, 2000]
              = [875, 1000, 1000]"
    by (simp add: expected_writes_def frame_progress_def frame_value_def exact_math_def
          power3_eq_cube)
  have h4: "render plain_counter 1000 = Number 1000"
    by (simp add: render_def plain_counter_def)
  note T = counter_frames_then_target [of exact_math 1000 0 "[1000, 2000]" 1000 plain_counter]
  have a: "fst (animateCounter exact_math 1000 0 [1000, 2000])
       = [Number 875, Number 1000, Number 1000]"
    using conjunct1 [OF T] h3 by simp
  have b0: "last (fst (animateCounter exact_math 1000 0 [1000, 2000]))
              = Number (real_of_int 1000)"
    using T h1 by blast
  have b: "last (fst (animateCounter exact_math 1000 0 [1000, 2000])) = Number 1000"
    using b0 by simp
  have c0: "last (fst (animateCounterCSS exact_math 1000 plain_counter 0 [1000, 2000]))
             = render plain_counter 1000"
    using T h2 by blast
  have c: "last (fst (animateCounterCSS exact_math 1000 plain_counter 0 [1000, 2000]))
             = Number 1000"
    using c0 h4 by simp
  show ?thesis using h1 h2 a b c by simp
qed

text \<open>
  C7 as stated fails: t is not clamped from below. A frame stamped 15.625 ms before the
  start time makes elapsed / duration -1/128, and the counter to 1000 shows -24 where the
  formula with t clamped to [0, 1] gives 0; every intermediate result of this
  computation is a double. Likewise a frame stamped 50 ms before the start shows -77
  (the exact value is -76.890625, far from an integer).
\<close>

theorem counter_negative_elapsed_counterexample:
  "fst (animateCounter exact_math 1000 (925 / 8) [100]) = [Number (- 24)]
   \<and> spec_counter_value 0 1000 2000 (925 / 8) 100 = 0
   \<and> fst (animateCounter exact_math 1000 100 [50]) = [Number (- 77)]
   \<and> spec_counter_value 0 1000 2000 100 50 = 0"
  by (simp add: animateCounter_def exact_math_def spec_counter_value_def clamp01_def
        ease_out_cubic_def power3_eq_cube)

section \<open>Reduced motion\<close>

text \<open>
  C8. With the reduced-motion preference active and \<open>respectReducedMotion\<close> on,
  \<open>animateIn\<close>, for any element, type and delay, returns the element with opacity 1, no
  transform and the class \<open>visible\<close>, and starts nothing; \<open>animateCounter\<close> writes the
  target and runs no animation frame.
\<close>

theorem reduced_motion_skips:
  "reducedMotion c \<and> respectReducedMotion c \<longrightarrow>
     animateIn c el type opt_delay
       = (el\<lparr>style_opacity := ''1'', style_transform := ''none'',
              classList := classList_add ''visible'' (classList el)\<rparr>, [])
     \<and> ''visible'' \<in> set (classList (fst (animateIn c el type opt_delay)))
     \<and> controller_animateCounter m c el target opts startTime frames
         = (el\<lparr>textContent := Number target\<rparr>, 0, [])"
  by (simp add: animateIn_def shouldSkipAnimation_def showElementImmediately_def
        controller_animateCounter_def classList_add_def)

text \<open>C8, witness: a hidden \<open>fade-up\<close> element and a counter to 1000.\<close>

theorem reduced_motion_skips_witness:
  "reducedMotion calm_controller \<and> respectReducedMotion calm_controller
   \<and> animateIn calm_controller hidden_element ''fadeUp'' None
       = (\<lparr>style_opacity = ''1'', style_transform = ''none'',
           classList = [''fade-up'', ''visible''], textContent = Number 0\<rparr>, [])
   \<and> controller_animateCounter exact_math calm_controller hidden_element 1000 plain_counter 100
         [116, 1100, 2100]
       = (\<lparr>style_opacity = ''0'', style_transform = ''translateY(30px)'',
           classList = [''fade-up''], textContent = Number 1000\<rparr>, 0, [])"
proof -
  have h: "reducedMotion calm_controller \<and> respectReducedMotion calm_controller"
    by (simp add: calm_controller_def)
  show ?thesis
    using h reduced_motion_skips [of calm_controller hidden_element "''fadeUp''" None
                                     exact_math 1000 plain_counter 100 "[116, 1100, 2100]"]
    by (simp add: hidden_element_def classList_add_def)
qed

section \<open>Media loading with a fallback source\<close>

lemma offline_never_returns:
  "retryable m \<Longrightarrow>
     \<not> snd (loadMedia n offline (m, tr))
     \<and> length (filter is_attempt (snd (fst (loadMedia n offline (m, tr)))))
         = length (filter is_attempt tr) + n"
proof (induction n arbitrary: m tr)
  case 0
  then show ?case by simp
next
  case (Suc n)
  define m2 where "m2 = m\<lparr>error := True, loading := False, src := fallbackSrc m\<rparr>"
  define tr2 where "tr2 = tr @ [Attempt (src m), ConsoleError ''Failed to load media'']"
  have r: "retryable m2" using Suc.prems by (simp add: retryable_def m2_def)
  have step: "loadMedia (Suc n) offline (m, tr) =
      (let ((m3, tr3), returned) = loadMedia n offline (m2, tr2)
       in if returned then ((m3, tr3 @ [ConsoleLog ''Loaded fallback'', ErrorEvent (m_id m3)]), True)
          else ((m3, tr3), False))"
    using Suc.prems
    by (simp add: retryable_def load_by_type_def loadImage_def offline_def m2_def tr2_def
          case_prod_beta Let_def)
  show ?case
    unfolding step
    using Suc.IH [OF r, of tr2]
    by (simp add: case_prod_beta tr2_def)
qed

text \<open>
  C3 does not hold of the code. When the fallback source fails as well, the \<open>catch\<close>
  block of \<open>loadMedia\<close> runs again, finds \<open>fallbackSrc\<close> still set and calls
  \<open>loadFallback\<close> again: however many \<open>loadMedia\<close> calls are followed, each of them
  makes one more load attempt and the outermost call has not returned.
\<close>

theorem fallback_retried_without_bound:
  "attempts (loadMedia n offline (broken_image, [])) = n
   \<and> \<not> snd (loadMedia n offline (broken_image, []))"
proof -
  have "retryable broken_image" by (simp add: retryable_def broken_image_def truthy_def)
  then show ?thesis using offline_never_returns [of broken_image n "[]"]
    by (simp add: attempts_def)
qed

text \<open>The specification's example: the primary source fails, the fallback loads; two
  attempts, and the record ends loaded.\<close>

lemma fallback_rescue:
  "loadMedia 2 only_good (rescued_image, [])
     = ((rescued_image\<lparr>loaded := True, error := True, src := Some ''good.jpg''\<rparr>,
         [Attempt (Some ''bad.jpg''), ConsoleError ''Failed to load media'',
          Attempt (Some ''good.jpg''), LoadedEvent ''hero'',
          ConsoleLog ''Loaded fallback'', ErrorEvent ''hero'']), True)"
  by (simp add: numeral_2_eq_2 rescued_image_def broken_image_def only_good_def
        load_by_type_def loadImage_def truthy_def)

section \<open>emit and failing callbacks\<close>

lemma on_fields [simp]:
  "page (on ev cb b) = page b" "console (on ev cb b) = console b" "invoked (on ev cb b) = invoked b"
  by (simp_all add: on_def Let_def)

lemma off_fields [simp]:
  "page (off ev cb b) = page b" "console (off ev cb b) = console b" "invoked (off ev cb b) = invoked b"
  by (simp_all add: off_def split: option.splits)

lemma registry_calls_fields:
  "page (registry_calls rs b) = page b \<and> console (registry_calls rs b) = console b
   \<and> invoked (registry_calls rs b) = invoked b"
proof (induction rs arbitrary: b)
  case Nil
  then show ?case by simp
next
  case (Cons r rs)
  then show ?case by (cases r) simp_all
qed

lemma on_prefix:
  "callbacks b ev = Some (cs @ xs) \<Longrightarrow> \<exists>ys. callbacks (on ev' cb b) ev = Some (cs @ ys)"
  by (auto simp: on_def Let_def)

lemma off_other:
  "ev' \<noteq> ev \<Longrightarrow> callbacks (off ev' cb b) ev = callbacks b ev"
  by (simp add: off_def split: option.splits)

lemma registry_calls_prefix:
  assumes "\<forall>r \<in> set rs. \<not> removes_from ev r" "callbacks b ev = Some (cs @ xs)"
  shows "\<exists>ys. callbacks (registry_calls rs b) ev = Some (cs @ ys)"
  using assms
proof (induction rs arbitrary: b xs)
  case Nil
  then show ?case by simp
next
  case (Cons r rs)
  show ?case
  proof (cases r)
    case (On ev' cb)
    obtain ys where "callbacks (on ev' cb b) ev = Some (cs @ ys)"
      using on_prefix [OF Cons.prems(2)] by blast
    then show ?thesis using Cons.IH [of "on ev' cb b" ys] Cons.prems(1) On by simp
  next
    case (Off ev' cb)
    then have "ev' \<noteq> ev" using Cons.prems(1) by simp
    then have "callbacks (off ev' cb b) ev = Some (cs @ xs)"
      using Cons.prems(2) by (simp add: off_other)
    then show ?thesis using Cons.IH [of "off ev' cb b" xs] Cons.prems(1) Off by simp
  qed
qed

lemma call_guarded_fields:
  "invoked (call_guarded beh ev d cb b) = invoked b @ [cb]
   \<and> (page (call_guarded beh ev d cb b), console (call_guarded beh ev d cb b))
       = deliver beh ev d [cb] (page b, console b)"
  by (simp add: call_guarded_def case_prod_beta Let_def registry_calls_fields
        split: option.splits)

lemma call_guarded_prefix:
  assumes "\<forall>w. \<forall>r \<in> set (fst (snd (beh cb d w))). \<not> removes_from ev r"
    "callbacks b ev = Some (cs @ xs)"
  shows "\<exists>ys. callbacks (call_guarded beh ev d cb b) ev = Some (cs @ ys)"
proof -
  have q: "\<forall>r \<in> set (fst (snd (beh cb d (page b)))). \<not> removes_from ev r"
    using assms(1) by blast
  have "\<exists>ys. callbacks (registry_calls (fst (snd (beh cb d (page b))))
                 (b\<lparr>page := fst (beh cb d (page b)), invoked := invoked b @ [cb]\<rparr>)) ev
               = Some (cs @ ys)"
    by (rule registry_calls_prefix [OF q]) (simp add: assms(2))
  then show ?thesis
    by (auto simp: call_guarded_def case_prod_beta Let_def split: option.splits)
qed

lemma deliver_append:
  "deliver beh ev d (as @ bs) acc = deliver beh ev d bs (deliver beh ev d as acc)"
proof (induction as arbitrary: acc)
  case Nil
  then show ?case by simp
next
  case (Cons a as)
  then show ?case by (cases acc) (simp add: case_prod_beta)
qed

lemma forEach_loop_delivers:
  assumes "keeps_registrations beh ev d cs"
    "callbacks b ev = Some (cs @ xs)" "k + r = length cs"
  shows "invoked (forEach_loop beh ev d r k b) = invoked b @ drop k cs
     \<and> (page (forEach_loop beh ev d r k b), console (forEach_loop beh ev d r k b))
         = deliver beh ev d (drop k cs) (page b, console b)"
  using assms(2,3)
proof (induction r arbitrary: k b xs)
  case 0
  then show ?case by simp
next
  case (Suc r)
  have k: "k < length cs" using Suc.prems(2) by simp
  then have nth: "js_nth (cs @ xs) k = Some (cs ! k)"
    by (simp add: js_nth_def nth_append)
  have q: "\<forall>w. \<forall>r \<in> set (fst (snd (beh (cs ! k) d w))). \<not> removes_from ev r"
    using assms(1) nth_mem [OF k] unfolding keeps_registrations_def by blast
  obtain ys where ys: "callbacks (call_guarded beh ev d (cs ! k) b) ev = Some (cs @ ys)"
    using call_guarded_prefix [of beh "cs ! k" d ev b cs xs] q Suc.prems(1) by blast
  have step: "forEach_loop beh ev d (Suc r) k b
                = forEach_loop beh ev d r (Suc k) (call_guarded beh ev d (cs ! k) b)"
    using Suc.prems(1) nth by simp
  have d: "drop k cs = cs ! k # drop (Suc k) cs"
    using k by (simp add: Cons_nth_drop_Suc)
  have IH: "invoked (forEach_loop beh ev d r (Suc k) (call_guarded beh ev d (cs ! k) b))
              = invoked (call_guarded beh ev d (cs ! k) b) @ drop (Suc k) cs
     \<and> (page (forEach_loop beh ev d r (Suc k) (call_guarded beh ev d (cs ! k) b)),
         console (forEach_loop beh ev d r (Suc k) (call_guarded beh ev d (cs ! k) b)))
         = deliver beh ev d (drop (Suc k) cs)
             (page (call_guarded beh ev d (cs ! k) b),
              console (call_guarded beh ev d (cs ! k) b))"
    using Suc.IH [OF ys] Suc.prems(2) by simp
  have dl: "deliver beh ev d (drop k cs) (page b, console b)
          = deliver beh ev d (drop (Suc k) cs) (deliver beh ev d [cs ! k] (page b, console b))"
    using deliver_append [of beh ev d "[cs ! k]" "drop (Suc k) cs" "(page b, console b)"] d
    by simp
  show ?case
    unfolding step
    using IH call_guarded_fields [of beh ev d "cs ! k" b] d dl by simp
qed

text \<open>
  C10, as the code has it. If none of the callbacks registered for the event calls
  \<open>off\<close> for that event while it runs, \<open>emit\<close> calls all of them, in registration
  order, each on the page state its predecessor left whether that one threw or not, and
  logs one line per error; \<open>emit\<close> itself always returns.
\<close>

theorem emit_isolates_errors:
  "callbacks b ev = Some cs \<and> keeps_registrations beh ev d cs \<longrightarrow>
     invoked (emit beh ev d b) = invoked b @ cs
     \<and> (page (emit beh ev d b), console (emit beh ev d b))
         = deliver beh ev d cs (page b, console b)"
proof
  assume a: "callbacks b ev = Some cs \<and> keeps_registrations beh ev d cs"
  then have c: "callbacks b ev = Some (cs @ [])" by simp
  show "invoked (emit beh ev d b) = invoked b @ cs
     \<and> (page (emit beh ev d b), console (emit beh ev d b))
         = deliver beh ev d cs (page b, console b)"
    using forEach_loop_delivers [of beh ev d cs b "[]" 0 "length cs"] a c
    by (simp add: emit_def)
qed

text \<open>C10, witness: three callbacks on \<open>scroll\<close>, the second of which throws.\<close>

theorem emit_isolates_errors_witness:
  "callbacks (on ''scroll'' 2 (on ''scroll'' 3 (on ''scroll'' 1 (new_bus 0)))) ''scroll''
     = Some [1, 3, 2]
   \<and> keeps_registrations sample_callbacks ''scroll'' () [1, 3, 2]
   \<and> invoked (emit sample_callbacks ''scroll'' ()
        (on ''scroll'' 2 (on ''scroll'' 3 (on ''scroll'' 1 (new_bus 0))))) = [1, 3, 2]
   \<and> page (emit sample_callbacks ''scroll'' ()
        (on ''scroll'' 2 (on ''scroll'' 3 (on ''scroll'' 1 (new_bus 0))))) = 111
   \<and> console (emit sample_callbacks ''scroll'' ()
        (on ''scroll'' 2 (on ''scroll'' 3 (on ''scroll'' 1 (new_bus 0)))))
       = [''Error in event callback for scroll: boom'']"
proof -
  have h1: "callbacks (on ''scroll'' 2 (on ''scroll'' 3 (on ''scroll'' 1 (new_bus 0)))) ''scroll''
     = Some [1, 3, 2]"
    by (simp add: on_def new_bus_def)
  have h2: "keeps_registrations sample_callbacks ''scroll'' () [1, 3, 2]"
    by (simp add: keeps_registrations_def sample_callbacks_def)
  have h3: "page (on ''scroll'' 2 (on ''scroll'' 3 (on ''scroll'' 1 (new_bus (0::nat))))) = 0"
    "console (on ''scroll'' 2 (on ''scroll'' 3 (on ''scroll'' 1 (new_bus (0::nat))))) = []"
    "invoked (on ''scroll'' 2 (on ''scroll'' 3 (on ''scroll'' 1 (new_bus (0::nat))))) = []"
    by (simp_all add: new_bus_def)
  have h4: "deliver sample_callbacks ''scroll'' () [1, 3, 2] (0, [])
              = (111, [''Error in event callback for scroll: boom''])"
    by (simp add: sample_callbacks_def)
  have R: "invoked (emit sample_callbacks ''scroll'' ()
               (on ''scroll'' 2 (on ''scroll'' 3 (on ''scroll'' 1 (new_bus 0)))))
             = invoked (on ''scroll'' 2 (on ''scroll'' 3 (on ''scroll'' 1 (new_bus (0::nat)))))
               @ [1, 3, 2]
     \<and> (page (emit sample_callbacks ''scroll'' ()
               (on ''scroll'' 2 (on ''scroll'' 3 (on ''scroll'' 1 (new_bus 0))))),
         console (emit sample_callbacks ''scroll'' ()
               (on ''scroll'' 2 (on ''scroll'' 3 (on ''scroll'' 1 (new_bus 0))))))
         = deliver sample_callbacks ''scroll'' () [1, 3, 2]
             (page (on ''scroll'' 2 (on ''scroll'' 3 (on ''scroll'' 1 (new_bus (0::nat))))),
              console (on ''scroll'' 2 (on ''scroll'' 3 (on ''scroll'' 1 (new_bus (0::nat))))))"
    using h1 h2
      emit_isolates_errors
        [of "on ''scroll'' 2 (on ''scroll'' 3 (on ''scroll'' 1 (new_bus 0)))" "''scroll''"
            "[1, 3, 2]" sample_callbacks "()"]
    by blast
  have I: "invoked (emit sample_callbacks ''scroll'' ()
               (on ''scroll'' 2 (on ''scroll'' 3 (on ''scroll'' 1 (new_bus 0))))) = [1, 3, 2]"
    using conjunct1 [OF R] by (simp only: h3 append_Nil)
  have P: "(page (emit sample_callbacks ''scroll'' ()
               (on ''scroll'' 2 (on ''scroll'' 3 (on ''scroll'' 1 (new_bus 0))))),
            console (emit sample_callbacks ''scroll'' ()
               (on ''scroll'' 2 (on ''scroll'' 3 (on ''scroll'' 1 (new_bus 0))))))
           = (111, [''Error in event callback for scroll: boom''])"
    using conjunct2 [OF R] by (simp only: h3 h4)
  show ?thesis using h1 h2 I P by simp
qed

text \<open>
  C10 as stated fails: callbacks 1 and 2 are registered for \<open>sectionChange\<close>; callback 1
  unregisters itself when called, the array shrinks under \<open>forEach\<close>, and callback 2 is
  never called.
\<close>

theorem emit_skips_counterexample:
  "callbacks (on ''sectionChange'' 2 (on ''sectionChange'' 1 (new_bus 0))) ''sectionChange''
     = Some [1, 2]
   \<and> invoked (emit sample_callbacks ''sectionChange'' ()
        (on ''sectionChange'' 2 (on ''sectionChange'' 1 (new_bus 0)))) = [1]
   \<and> page (emit sample_callbacks ''sectionChange'' ()
        (on ''sectionChange'' 2 (on ''sectionChange'' 1 (new_bus 0)))) = 1"
  by (simp add: on_def off_def new_bus_def emit_def js_nth_def call_guarded_def
        sample_callbacks_def numeral_2_eq_2)

end
